theory Spec2Isabelle
  imports Main "HOL-Library.Monad_Syntax"
begin

section \<open>Text and character classes\<close>

text \<open>
  Both scripts work on the content of a file as one Python \<open>str\<close>, a sequence of Unicode
  code points. The content is modelled as a list of code points (\<open>ord(c)\<close>, an integer);
  \<open>str\<close> turns a literal of the theory into such a list. File names stay \<open>string\<close>s.
\<close>

type_synonym utext = "int list"

definition str :: "string \<Rightarrow> utext" where
  "str s = map of_char s"

abbreviation (input) ch :: "char \<Rightarrow> int" where
  "ch c \<equiv> of_char c"

definition newline :: int where
  "newline = 0x0A"

definition squote :: int where
  "squote = 0x27"

definition dquote :: int where
  "dquote = 0x22"

definition backtick :: int where
  "backtick = 0x60"

text \<open>
  \<open>\s\<close> in a \<open>str\<close> pattern and \<open>str.strip()\<close> use the same test, CPython's
  \<open>Py_UNICODE_ISSPACE\<close>: the code points of bidirectional type WS, B or S or of category
  Zs. These are U+0009-000D, U+001C-0020, U+0085, U+00A0, U+1680, U+2000-200A, U+2028,
  U+2029, U+202F, U+205F and U+3000.
\<close>

definition is_space :: "int \<Rightarrow> bool" where
  "is_space c =
     (if c < 0x80 then (0x09 \<le> c \<and> c \<le> 0x0D) \<or> (0x1C \<le> c \<and> c \<le> 0x20)
      else c = 0x85 \<or> c = 0xA0 \<or> c = 0x1680 \<or> (0x2000 \<le> c \<and> c \<le> 0x200A) \<or> c = 0x2028
           \<or> c = 0x2029 \<or> c = 0x202F \<or> c = 0x205F \<or> c = 0x3000)"

text \<open>
  \<open>\w\<close> in a \<open>str\<close> pattern is an alphanumeric code point (\<open>str.isalnum()\<close>) or the
  underscore. In the ASCII range these are the letters and the digits. Beyond it the answer
  is a table of the Unicode database of the running Python, which is no part of the scripts:
  \<open>unicode_alnum\<close> stands for that table, and nothing is known of it here but that no
  whitespace code point is alphanumeric.
\<close>

definition unicode_alnum :: "int \<Rightarrow> bool" where
  "unicode_alnum = (SOME table. True)"

definition is_word :: "int \<Rightarrow> bool" where
  "is_word c =
     (if c < 0x80
      then (0x30 \<le> c \<and> c \<le> 0x39) \<or> (0x41 \<le> c \<and> c \<le> 0x5A) \<or> (0x61 \<le> c \<and> c \<le> 0x7A)
           \<or> c = 0x5F
      else unicode_alnum c \<and> \<not> is_space c)"

text \<open>\<open>[A-Z_]\<close>\<close>

definition is_upper_us :: "int \<Rightarrow> bool" where
  "is_upper_us c = ((0x41 \<le> c \<and> c \<le> 0x5A) \<or> c = 0x5F)"

text \<open>\<open>['"`]\<close> and \<open>[^'"`]\<close>\<close>

definition is_quote :: "int \<Rightarrow> bool" where
  "is_quote c = (c = squote \<or> c = dquote \<or> c = backtick)"

definition non_quote :: "int \<Rightarrow> bool" where
  "non_quote c = (\<not> is_quote c)"

text \<open>\<open>str.strip()\<close>: leading and trailing whitespace removed.\<close>

definition strip :: "utext \<Rightarrow> utext" where
  "strip s = rev (dropWhile is_space (rev (dropWhile is_space s)))"

text \<open>\<open>sub in s\<close>: the substring test, by trying every position.\<close>

fun lit :: "utext \<Rightarrow> utext \<Rightarrow> utext option" where
  "lit [] s = Some s"
| "lit (p # ps) [] = None"
| "lit (p # ps) (c # cs) = (if p = c then lit ps cs else None)"

fun contains :: "utext \<Rightarrow> utext \<Rightarrow> bool" where
  "contains sub [] = (sub = [])"
| "contains sub (c # cs) = (lit sub (c # cs) \<noteq> None \<or> contains sub cs)"

text \<open>\<open>s.split('\n')\<close> and \<open>'\n'.join(lines)\<close>.\<close>

fun split_nl :: "utext \<Rightarrow> utext list" where
  "split_nl [] = [[]]"
| "split_nl (c # cs) =
     (if c = newline then [] # split_nl cs
      else (case split_nl cs of [] \<Rightarrow> [[c]] | l # ls \<Rightarrow> (c # l) # ls))"

fun join_nl :: "utext list \<Rightarrow> utext" where
  "join_nl [] = []"
| "join_nl [l] = l"
| "join_nl (l # ls) = l @ newline # join_nl ls"

section \<open>Regular expressions of the scripts\<close>

text \<open>
  Every pattern of the two scripts is a sequence of literals, single character classes and
  greedy repetitions of one character class, and each repetition is followed by a character
  outside its class (or, for \<open>\s*\<close> before \<open>[^`]*\<close> and \<open>[^)]*\<close>, by a class that absorbs
  whatever the repetition gives back, up to the same next delimiter). So the backtracking of
  \<open>re\<close> never finds a match that the greedy run misses, and a pattern is
  matched at a position by consuming its pieces from left to right:
  \<open>lit\<close> a literal, \<open>one\<close> a character of a class, \<open>many1\<close> the longest non-empty run
  of a class (\<open>+\<close>), \<open>many\<close> the longest run (\<open>*\<close>), \<open>spaces\<close> the run \<open>\s*\<close>.
  A matcher returns the captured groups and the text after the match.
\<close>

definition one :: "(int \<Rightarrow> bool) \<Rightarrow> utext \<Rightarrow> utext option" where
  "one P s = (case s of [] \<Rightarrow> None | c # cs \<Rightarrow> if P c then Some cs else None)"

definition many :: "(int \<Rightarrow> bool) \<Rightarrow> utext \<Rightarrow> utext \<times> utext" where
  "many P s = (takeWhile P s, dropWhile P s)"

definition many1 :: "(int \<Rightarrow> bool) \<Rightarrow> utext \<Rightarrow> (utext \<times> utext) option" where
  "many1 P s = (if takeWhile P s = [] then None else Some (takeWhile P s, dropWhile P s))"

definition spaces :: "utext \<Rightarrow> utext" where
  "spaces s = dropWhile is_space s"

text \<open>
  \<open>re.subn(pattern, repl, text)\<close>: scan from the left; where the pattern matches, emit the
  replacement and go on after the match, otherwise copy one character. The result is the new
  text and the number of replacements; \<open>re.sub\<close> is its first component and
  \<open>len(re.findall(pattern, text))\<close> its second. A matcher \<open>m\<close> gives the replacement
  and the rest of the text. Every pattern here starts with a literal, so a match consumes at
  least one character; the length test only makes the recursion visibly terminating.
\<close>

fun re_subn :: "(utext \<Rightarrow> (utext \<times> utext) option) \<Rightarrow> utext \<Rightarrow> utext \<times> nat" where
  "re_subn m [] = ([], 0)"
| "re_subn m (c # cs) =
     (case m (c # cs) of
        None \<Rightarrow> (case re_subn m cs of (t, n) \<Rightarrow> (c # t, n))
      | Some (r, rest) \<Rightarrow>
          if length rest \<le> length cs
          then (case re_subn m rest of (t, n) \<Rightarrow> (r @ t, Suc n))
          else (case re_subn m cs of (t, n) \<Rightarrow> (c # t, n)))"

definition re_sub :: "(utext \<Rightarrow> (utext \<times> utext) option) \<Rightarrow> utext \<Rightarrow> utext" where
  "re_sub m s = fst (re_subn m s)"

definition re_count :: "(utext \<Rightarrow> (utext \<times> utext) option) \<Rightarrow> utext \<Rightarrow> nat" where
  "re_count m s = snd (re_subn m s)"

text \<open>Whether a pattern matches at some position of a text.\<close>

fun occurs :: "(utext \<Rightarrow> (utext \<times> utext) option) \<Rightarrow> utext \<Rightarrow> bool" where
  "occurs m [] = (m [] \<noteq> None)"
| "occurs m (c # cs) = (m (c # cs) \<noteq> None \<or> occurs m cs)"

section \<open>refactor-logger.py\<close>

subsection \<open>The import line\<close>

definition import_line :: utext where
  "import_line = (str ''import { log, logError } from '@/lib/services/logger';'')"

definition has_logger_import :: "utext \<Rightarrow> bool" where
  "has_logger_import content =
     (contains ((str ''from '') @ [squote] @ (str ''@/lib/services/logger'') @ [squote]) content
      \<or> contains ((str ''from '') @ [dquote] @ (str ''@/lib/services/logger'') @ [dquote]) content)"

text \<open>
  \<open>re.match(r'^import\s+.*?;?\s*$', line.strip())\<close>: the stripped line starts with
  \<open>import\<close> and a whitespace character; \<open>.*?\<close> then takes what follows up to the end,
  where \<open>.\<close> is any character but the line feed, so whatever follows the first line feed
  after the whitespace run has to be whitespace (a line of \<open>split('\n')\<close> has none).
\<close>

definition is_import_line :: "utext \<Rightarrow> bool" where
  "is_import_line line =
     (case lit (str ''import'') (strip line) of
        None \<Rightarrow> False
      | Some r \<Rightarrow>
          (case one is_space r of
             None \<Rightarrow> False
           | Some r' \<Rightarrow> list_all is_space (dropWhile (\<lambda>c. c \<noteq> newline) (spaces r'))))"

text \<open>The loop over \<open>enumerate(lines)\<close> that keeps the index of the last matching line.\<close>

fun last_import_idx :: "utext list \<Rightarrow> nat \<Rightarrow> int \<Rightarrow> int" where
  "last_import_idx [] i acc = acc"
| "last_import_idx (line # lines) i acc =
     last_import_idx lines (Suc i) (if is_import_line line then int i else acc)"

definition add_logger_import :: "utext \<Rightarrow> utext" where
  "add_logger_import content =
     (if has_logger_import content then content
      else
        let lines = split_nl content;
            idx = last_import_idx lines 0 (- 1)
        in if idx \<ge> 0
           then join_nl (take (nat (idx + 1)) lines @ [import_line] @ drop (nat (idx + 1)) lines)
           else import_line @ [newline, newline] @ content)"

subsection \<open>The three call shapes\<close>

text \<open>
  \<open>head\(\s*['"`]([^'"`]+)['"`]\s*,\s*(\w+)\s*\)\<close>, where \<open>head\<close> is
  \<open>console.error\<close> or \<open>console.warn\<close> with its opening parenthesis: a quoted message and a
  variable.
\<close>

definition match_str_var :: "utext \<Rightarrow> utext \<Rightarrow> (utext \<times> utext \<times> utext) option" where
  "match_str_var head s = do {
     s1 \<leftarrow> lit head s;
     s2 \<leftarrow> one is_quote (spaces s1);
     (msg, s3) \<leftarrow> many1 non_quote s2;
     s4 \<leftarrow> one is_quote s3;
     s5 \<leftarrow> lit (str '','') (spaces s4);
     (v, s6) \<leftarrow> many1 is_word (spaces s5);
     s7 \<leftarrow> lit (str '')'') (spaces s6);
     Some (msg, v, s7)
   }"

text \<open>\<open>head\(\s*`([^`]+)`\s*\)\<close>: a template literal alone.\<close>

definition match_template :: "utext \<Rightarrow> utext \<Rightarrow> (utext \<times> utext) option" where
  "match_template head s = do {
     s1 \<leftarrow> lit head s;
     s2 \<leftarrow> lit [backtick] (spaces s1);
     (msg, s3) \<leftarrow> many1 (\<lambda>c. c \<noteq> backtick) s2;
     s4 \<leftarrow> lit [backtick] s3;
     s5 \<leftarrow> lit (str '')'') (spaces s4);
     Some (msg, s5)
   }"

text \<open>\<open>head\(\s*['"`]([^'"`]+)['"`]\s*\)\<close>: a quoted message alone.\<close>

definition match_simple :: "utext \<Rightarrow> utext \<Rightarrow> (utext \<times> utext) option" where
  "match_simple head s = do {
     s1 \<leftarrow> lit head s;
     s2 \<leftarrow> one is_quote (spaces s1);
     (msg, s3) \<leftarrow> many1 non_quote s2;
     s4 \<leftarrow> one is_quote s3;
     s5 \<leftarrow> lit (str '')'') (spaces s4);
     Some (msg, s5)
   }"

text \<open>\<open>\$\{[^}]+\}\<close>, replaced by the empty string.\<close>

definition match_interp :: "utext \<Rightarrow> (utext \<times> utext) option" where
  "match_interp s = do {
     s1 \<leftarrow> lit (str ''${'') s;
     (e, s2) \<leftarrow> many1 (\<lambda>c. c \<noteq> ch (CHR ''}'')) s1;
     s3 \<leftarrow> lit (str ''}'') s2;
     Some ([], s3)
   }"

definition strip_interp :: "utext \<Rightarrow> utext" where
  "strip_interp msg = re_sub match_interp msg"

text \<open>
  Where that pattern cannot start: a text in which every \<open>${\<close> is directly followed by
  \<open>}\<close>. At such a place \<open>[^}]+\<close> finds no character, whatever comes after the text; at
  any other \<open>${\<close> the pattern matches as soon as a \<open>}\<close> comes later.
\<close>

fun no_open :: "utext \<Rightarrow> bool" where
  "no_open [] = True"
| "no_open (c # cs) =
     ((lit (str ''${'') (c # cs) = None \<or> lit (str ''${}'') (c # cs) \<noteq> None) \<and> no_open cs)"

subsection \<open>The replacement functions\<close>

text \<open>\<open>msg.replace('[', '').replace(']', '').strip()\<close>\<close>

definition clean_msg :: "utext \<Rightarrow> utext" where
  "clean_msg msg = strip (filter (\<lambda>c. c \<noteq> ch (CHR '']'')) (filter (\<lambda>c. c \<noteq> ch (CHR ''['')) msg))"

definition replace_str_var :: "utext \<Rightarrow> utext \<Rightarrow> utext" where
  "replace_str_var msg error_var =
     (str ''logError('') @ error_var @ (str '', '') @ [dquote] @ clean_msg msg @ [dquote]
       @ (str '', { component: '') @ [dquote] @ (str ''refactored'') @ [dquote] @ (str '' })'')"

text \<open>
  The level is \<open>log.error\<close>, \<open>log.warn\<close> or \<open>log.info\<close>; the three template callbacks of
  the source differ in nothing else.
\<close>

definition replace_template :: "utext \<Rightarrow> utext \<Rightarrow> utext" where
  "replace_template level msg =
     (if contains (str ''${'') msg
      then level @ (str ''({ msg: '') @ [dquote] @ strip (strip_interp msg) @ [dquote] @ (str '' })'')
      else level @ (str ''({ msg: '') @ [dquote] @ msg @ [dquote] @ (str '' })''))"

definition replace_simple :: "utext \<Rightarrow> utext \<Rightarrow> utext" where
  "replace_simple level msg = level @ (str ''({ msg: '') @ [dquote] @ msg @ [dquote] @ (str '' })'')"

definition pat_str_var :: "utext \<Rightarrow> utext \<Rightarrow> (utext \<times> utext) option" where
  "pat_str_var head s =
     map_option (\<lambda>(msg, v, rest). (replace_str_var msg v, rest)) (match_str_var head s)"

definition pat_template :: "utext \<Rightarrow> utext \<Rightarrow> utext \<Rightarrow> (utext \<times> utext) option" where
  "pat_template head level s =
     map_option (\<lambda>(msg, rest). (replace_template level msg, rest)) (match_template head s)"

definition pat_simple :: "utext \<Rightarrow> utext \<Rightarrow> utext \<Rightarrow> (utext \<times> utext) option" where
  "pat_simple head level s =
     map_option (\<lambda>(msg, rest). (replace_simple level msg, rest)) (match_simple head s)"

subsection \<open>The passes\<close>

definition refactor_console_error :: "utext \<Rightarrow> utext" where
  "refactor_console_error content =
     (let content = re_sub (pat_str_var (str ''console.error('')) content;
          content = re_sub (pat_template (str ''console.error('') (str ''log.error'')) content;
          content = re_sub (pat_simple (str ''console.error('') (str ''log.error'')) content
      in content)"

definition refactor_console_warn :: "utext \<Rightarrow> utext" where
  "refactor_console_warn content =
     (let content = re_sub (pat_template (str ''console.warn('') (str ''log.warn'')) content;
          content = re_sub (pat_str_var (str ''console.warn('')) content;
          content = re_sub (pat_simple (str ''console.warn('') (str ''log.warn'')) content
      in content)"

definition refactor_console_log :: "utext \<Rightarrow> utext" where
  "refactor_console_log content =
     (let content = re_sub (pat_template (str ''console.log('') (str ''log.info'')) content;
          content = re_sub (pat_simple (str ''console.log('') (str ''log.info'')) content
      in content)"

text \<open>\<open>console\.(log|warn|error)\<close>, counted with \<open>len(re.findall(...))\<close>.\<close>

definition match_console :: "utext \<Rightarrow> (utext \<times> utext) option" where
  "match_console s = do {
     s1 \<leftarrow> lit (str ''console.'') s;
     (case lit (str ''log'') s1 of
        Some r \<Rightarrow> Some ([], r)
      | None \<Rightarrow>
          (case lit (str ''warn'') s1 of
             Some r \<Rightarrow> Some ([], r)
           | None \<Rightarrow> map_option (\<lambda>r. ([], r)) (lit (str ''error'') s1)))
   }"

definition count_console :: "utext \<Rightarrow> nat" where
  "count_console content = re_count match_console content"

text \<open>The three groups of passes in the order \<open>refactor_file\<close> calls them.\<close>

definition passes_A :: "utext \<Rightarrow> utext" where
  "passes_A content =
     refactor_console_log (refactor_console_warn (refactor_console_error content))"

text \<open>The content after the import and the three groups of passes.\<close>

definition transform_A :: "utext \<Rightarrow> utext" where
  "transform_A content =
     (let content = add_logger_import content;
          content = refactor_console_error content;
          content = refactor_console_warn content;
          content = refactor_console_log content
      in content)"

text \<open>
  The text part of \<open>refactor_file\<close>: from the content read to the content the function ends
  with and the count it returns. The count is an \<open>int\<close>, as the difference of the two
  counts in the source is.
\<close>

definition rewrite_A :: "utext \<Rightarrow> utext \<times> int" where
  "rewrite_A original_content =
     (let count_before = count_console original_content
      in if count_before = 0 then (original_content, 0)
         else
           let content = transform_A original_content;
               count_after = count_console content;
               statements_converted = int count_before - int count_after
           in if content \<noteq> original_content then (content, statements_converted)
              else (content, 0))"

text \<open>
  The eight patterns in the order of the passes, and whether one of them matches somewhere
  in a text.
\<close>

definition patterns_A :: "(utext \<Rightarrow> (utext \<times> utext) option) list" where
  "patterns_A =
     [pat_str_var (str ''console.error(''), pat_template (str ''console.error('') (str ''log.error''),
      pat_simple (str ''console.error('') (str ''log.error''),
      pat_template (str ''console.warn('') (str ''log.warn''), pat_str_var (str ''console.warn(''),
      pat_simple (str ''console.warn('') (str ''log.warn''),
      pat_template (str ''console.log('') (str ''log.info''), pat_simple (str ''console.log('') (str ''log.info'')]"

definition matches_A :: "utext \<Rightarrow> bool" where
  "matches_A s = list_ex (\<lambda>m. occurs m s) patterns_A"

section \<open>refactor\_logs.py\<close>

subsection \<open>The call shapes\<close>

text \<open>
  \<open>head\(`\$\{ICONS\.[A-Z_]+\}\s*([^`]*)`(?:,\s*([^)]*))?\);\<close>: a template literal that
  starts with an icon, and optionally a second argument. The second group is \<open>None\<close> when
  the optional part did not take part in the match.
\<close>

definition match_icons :: "utext \<Rightarrow> utext \<Rightarrow> (utext \<times> utext option \<times> utext) option" where
  "match_icons head s = do {
     s1 \<leftarrow> lit (head @ [backtick] @ (str ''${ICONS.'')) s;
     (name, s2) \<leftarrow> many1 is_upper_us s1;
     s3 \<leftarrow> lit (str ''}'') s2;
     (msg, s4) \<leftarrow> Some (many (\<lambda>c. c \<noteq> backtick) (spaces s3));
     s5 \<leftarrow> lit [backtick] s4;
     (case do {
             s6 \<leftarrow> lit (str '','') s5;
             (data, s7) \<leftarrow> Some (many (\<lambda>c. c \<noteq> ch (CHR '')'')) (spaces s6));
             s8 \<leftarrow> lit (str '');'') s7;
             Some (data, s8)
           } of
        Some (data, s8) \<Rightarrow> Some (msg, Some data, s8)
      | None \<Rightarrow> do {
          s6 \<leftarrow> lit (str '');'') s5;
          Some (msg, None, s6)
        })
   }"

text \<open>\<open>head\('([^']*)',\s*([^)]*)\);\<close>: a single-quoted message and a second argument.\<close>

definition match_sq_data :: "utext \<Rightarrow> utext \<Rightarrow> (utext \<times> utext \<times> utext) option" where
  "match_sq_data head s = do {
     s1 \<leftarrow> lit (head @ [squote]) s;
     (msg, s2) \<leftarrow> Some (many (\<lambda>c. c \<noteq> squote) s1);
     s3 \<leftarrow> lit (squote # (str '','')) s2;
     (data, s4) \<leftarrow> Some (many (\<lambda>c. c \<noteq> ch (CHR '')'')) (spaces s3));
     s5 \<leftarrow> lit (str '');'') s4;
     Some (msg, data, s5)
   }"

subsection \<open>The replacement functions\<close>

text \<open>\<open>match.group(2) or ""\<close>\<close>

definition group_or_empty :: "utext option \<Rightarrow> utext" where
  "group_or_empty g = (case g of None \<Rightarrow> [] | Some d \<Rightarrow> d)"

text \<open>\<open>replace1\<close> and \<open>replace2\<close>, which differ in the level only.\<close>

definition replace_icons :: "utext \<Rightarrow> utext \<Rightarrow> utext option \<Rightarrow> utext" where
  "replace_icons level m g =
     (let msg = strip m;
          data = group_or_empty g
      in level @ (str ''({ msg: '') @ [squote] @ msg @ [squote] @ (str '', component: '') @ [squote]
           @ (str ''todo'') @ [squote] @ (if data \<noteq> [] then (str '', '') @ data else []) @ (str '' });''))"

definition replace3 :: "utext \<Rightarrow> utext option \<Rightarrow> utext" where
  "replace3 m g =
     (let msg = strip m;
          data = group_or_empty g
      in (str ''logError('')
           @ (if data \<noteq> [] then data else (str ''new Error('') @ [dquote] @ msg @ [dquote] @ (str '')''))
           @ (str '', '') @ [squote] @ msg @ [squote] @ (str '', { component: '') @ [squote] @ (str ''todo'')
           @ [squote] @ (str '' });''))"

definition replace4 :: "utext \<Rightarrow> utext \<Rightarrow> utext" where
  "replace4 msg data =
     (str ''log.info({ msg: '') @ [squote] @ msg @ [squote] @ (str '', '') @ data @ (str '' });'')"

definition replace5 :: "utext \<Rightarrow> utext \<Rightarrow> utext" where
  "replace5 msg data =
     (str ''logError('') @ data @ (str '', '') @ [squote] @ msg @ [squote] @ (str '', { component: '')
       @ [squote] @ (str ''todo'') @ [squote] @ (str '' });'')"

definition pattern1 :: "utext \<Rightarrow> (utext \<times> utext) option" where
  "pattern1 s =
     map_option (\<lambda>(m, g, rest). (replace_icons (str ''log.info'') m g, rest)) (match_icons (str ''console.log('') s)"

definition pattern2 :: "utext \<Rightarrow> (utext \<times> utext) option" where
  "pattern2 s =
     map_option (\<lambda>(m, g, rest). (replace_icons (str ''log.warn'') m g, rest)) (match_icons (str ''console.warn('') s)"

definition pattern3 :: "utext \<Rightarrow> (utext \<times> utext) option" where
  "pattern3 s =
     map_option (\<lambda>(m, g, rest). (replace3 m g, rest)) (match_icons (str ''console.error('') s)"

definition pattern4 :: "utext \<Rightarrow> (utext \<times> utext) option" where
  "pattern4 s =
     map_option (\<lambda>(msg, data, rest). (replace4 msg data, rest)) (match_sq_data (str ''console.log('') s)"

definition pattern5 :: "utext \<Rightarrow> (utext \<times> utext) option" where
  "pattern5 s =
     map_option (\<lambda>(msg, data, rest). (replace5 msg data, rest)) (match_sq_data (str ''console.error('') s)"

subsection \<open>The passes and the import\<close>

text \<open>
  Each callback adds one to the shared \<open>count\<close>, so after the five passes \<open>count\<close> is the
  number of replacements made.
\<close>

definition passes_B :: "utext \<Rightarrow> utext \<times> nat" where
  "passes_B content =
     (case re_subn pattern1 content of (c1, n1) \<Rightarrow>
      case re_subn pattern2 c1 of (c2, n2) \<Rightarrow>
      case re_subn pattern3 c2 of (c3, n3) \<Rightarrow>
      case re_subn pattern4 c3 of (c4, n4) \<Rightarrow>
      case re_subn pattern5 c4 of (c5, n5) \<Rightarrow>
        (c5, n1 + n2 + n3 + n4 + n5))"

text \<open>
  \<open>import [^;]+;\<close> at a position, and \<open>re.search\<close> of it: the text up to the end of the
  first match (\<open>content[:insert_pos]\<close>) and the text after it.
\<close>

definition match_import_stmt :: "utext \<Rightarrow> utext option" where
  "match_import_stmt s = do {
     s1 \<leftarrow> lit (str ''import '') s;
     (x, s2) \<leftarrow> many1 (\<lambda>c. c \<noteq> ch (CHR '';'')) s1;
     lit (str '';'') s2
   }"

fun search_import :: "utext \<Rightarrow> (utext \<times> utext) option" where
  "search_import [] = None"
| "search_import (c # cs) =
     (case match_import_stmt (c # cs) of
        Some rest \<Rightarrow> Some (take (length (c # cs) - length rest) (c # cs), rest)
      | None \<Rightarrow> map_option (\<lambda>(pre, post). (c # pre, post)) (search_import cs))"

definition insert_import_B :: "nat \<Rightarrow> utext \<Rightarrow> utext" where
  "insert_import_B count content =
     (if count > 0 \<and> \<not> contains (str ''log, logError'') content
      then
        if \<not> contains import_line content
        then (case search_import content of
                Some (pre, post) \<Rightarrow> pre @ [newline] @ import_line @ post
              | None \<Rightarrow> content)
        else content
      else content)"

text \<open>The text part of \<open>refactor_file\<close>: all of it but the reading of the file.\<close>

definition rewrite_B :: "utext \<Rightarrow> nat \<times> utext" where
  "rewrite_B original_content =
     (case passes_B original_content of (content, count) \<Rightarrow>
        (count, if count > 0 then insert_import_B count content else original_content))"

text \<open>The five patterns, and whether one of them matches somewhere in a text.\<close>

definition patterns_B :: "(utext \<Rightarrow> (utext \<times> utext) option) list" where
  "patterns_B = [pattern1, pattern2, pattern3, pattern4, pattern5]"

definition matches_B :: "utext \<Rightarrow> bool" where
  "matches_B s = list_ex (\<lambda>m. occurs m s) patterns_B"

section \<open>The command-line drivers\<close>

text \<open>
  The file system is a map from paths to nodes. A node is a regular file with its content
  and whether it can be written, or something that exists and cannot be read as text (a
  directory, a file without read permission, bytes that are not UTF-8).
\<close>

datatype node = File utext bool | Unreadable

type_synonym filesystem = "string \<rightharpoonup> node"

datatype io_error = ReadError | WriteError

definition read_text :: "filesystem \<Rightarrow> string \<Rightarrow> io_error + utext" where
  "read_text fs p = (case fs p of Some (File c w) \<Rightarrow> Inr c | _ \<Rightarrow> Inl ReadError)"

definition write_text :: "filesystem \<Rightarrow> string \<Rightarrow> utext \<Rightarrow> io_error + filesystem" where
  "write_text fs p c =
     (case fs p of
        Some (File old True) \<Rightarrow> Inr (fs(p \<mapsto> File c True))
      | _ \<Rightarrow> Inl WriteError)"

definition exists_path :: "filesystem \<Rightarrow> string \<Rightarrow> bool" where
  "exists_path fs p = (fs p \<noteq> None)"

subsection \<open>refactor-logger.py\<close>

text \<open>
  \<open>refactor_file\<close>: the new file system, \<open>success\<close> and the count. Any exception of the
  body is caught and gives \<open>(False, 0)\<close>.
\<close>

definition refactor_file_A :: "filesystem \<Rightarrow> string \<Rightarrow> filesystem \<times> bool \<times> int" where
  "refactor_file_A fs file_path =
     (case read_text fs file_path of
        Inl e \<Rightarrow> (fs, False, 0)
      | Inr original_content \<Rightarrow>
          let count_before = count_console original_content
          in if count_before = 0 then (fs, True, 0)
             else
               let content = transform_A original_content;
                   count_after = count_console content;
                   statements_converted = int count_before - int count_after
               in if content \<noteq> original_content
                  then (case write_text fs file_path content of
                          Inl e \<Rightarrow> (fs, False, 0)
                        | Inr fs' \<Rightarrow> (fs', True, statements_converted))
                  else (fs, True, 0))"

text \<open>
  What a run leaves behind: the exit status, the file system, the \<open>results\<close> list and the
  paths reported on the error stream. A result is kept under the path given (the source
  prints its last component).
\<close>

record run =
  status :: nat
  files :: filesystem
  results :: "(string \<times> int) list"
  reported :: "string list"

fun process_args_A :: "string list \<Rightarrow> run \<Rightarrow> run" where
  "process_args_A [] r = r"
| "process_args_A (file_arg # rest) r =
     (if \<not> exists_path (files r) file_arg
      then process_args_A rest (r\<lparr>reported := reported r @ [file_arg]\<rparr>)
      else
        (case refactor_file_A (files r) file_arg of
           (fs', success, count) \<Rightarrow>
             if success
             then process_args_A rest (r\<lparr>files := fs', results := results r @ [(file_arg, count)]\<rparr>)
             else process_args_A rest (r\<lparr>files := fs', reported := reported r @ [file_arg]\<rparr>)))"

text \<open>\<open>main\<close>, on \<open>sys.argv[1:]\<close>. Returning from \<open>main\<close> is exit status 0.\<close>

definition main_A :: "string list \<Rightarrow> filesystem \<Rightarrow> run" where
  "main_A args fs =
     (if args = [] then \<lparr>status = 1, files = fs, results = [], reported = []\<rparr>
      else process_args_A args \<lparr>status = 0, files = fs, results = [], reported = []\<rparr>)"

subsection \<open>refactor\_logs.py\<close>

text \<open>
  \<open>main\<close>, on \<open>sys.argv[1:]\<close>: only the first argument is used. Nothing catches the
  exceptions of \<open>open\<close>, \<open>read\<close> and \<open>write\<close>, so they end the process with status 1.
\<close>

definition main_B :: "string list \<Rightarrow> filesystem \<Rightarrow> run" where
  "main_B args fs =
     (case args of
        [] \<Rightarrow> \<lparr>status = 1, files = fs, results = [], reported = []\<rparr>
      | filepath # others \<Rightarrow>
          if \<not> exists_path fs filepath
          then \<lparr>status = 1, files = fs, results = [], reported = [filepath]\<rparr>
          else
            (case read_text fs filepath of
               Inl e \<Rightarrow> \<lparr>status = 1, files = fs, results = [], reported = [filepath]\<rparr>
             | Inr content \<Rightarrow>
                 (case rewrite_B content of
                    (count, refactored_content) \<Rightarrow>
                      if count = 0
                      then \<lparr>status = 0, files = fs, results = [(filepath, 0)], reported = []\<rparr>
                      else
                        (case write_text fs filepath refactored_content of
                           Inl e \<Rightarrow> \<lparr>status = 1, files = fs, results = [], reported = [filepath]\<rparr>
                         | Inr fs' \<Rightarrow>
                             \<lparr>status = 0, files = fs', results = [(filepath, int count)],
                               reported = []\<rparr>))))"

section \<open>Literals, runs and substrings\<close>

lemma str_Nil [simp]: "str [] = []"
  by (simp add: str_def)

lemma str_Cons [simp]: "str (c # cs) = of_char c # str cs"
  by (simp add: str_def)

lemma lit_Some_iff: "lit p s = Some r \<longleftrightarrow> s = p @ r"
  by (induction p s rule: lit.induct) auto

lemma lit_append [simp]: "lit p (p @ r) = Some r"
  by (simp add: lit_Some_iff)

lemma lit_None_iff: "lit p s = None \<longleftrightarrow> (\<forall>r. s \<noteq> p @ r)"
  using lit_Some_iff [of p s] by (cases "lit p s") auto

lemma contains_iff: "contains sub s \<longleftrightarrow> (\<exists>a b. s = a @ sub @ b)"
proof (induction s)
  case Nil
  then show ?case by auto
next
  case (Cons c cs)
  have "(\<exists>a b. c # cs = a @ sub @ b) \<longleftrightarrow> (\<exists>b. c # cs = sub @ b) \<or> (\<exists>a b. cs = a @ sub @ b)"
    (is "?L \<longleftrightarrow> ?R")
  proof
    assume ?L
    then obtain a b where ab: "c # cs = a @ sub @ b" by blast
    show ?R
    proof (cases a)
      case Nil
      with ab show ?thesis by auto
    next
      case (Cons x a')
      with ab show ?thesis by auto
    qed
  next
    assume ?R
    then show ?L
    proof
      assume "\<exists>b. c # cs = sub @ b"
      then obtain b where "c # cs = [] @ sub @ b" by auto
      then show ?L by blast
    next
      assume "\<exists>a b. cs = a @ sub @ b"
      then obtain a b where "c # cs = (c # a) @ sub @ b" by auto
      then show ?L by blast
    qed
  qed
  moreover have "lit sub (c # cs) \<noteq> None \<longleftrightarrow> (\<exists>b. c # cs = sub @ b)"
    using lit_None_iff [of sub "c # cs"] by auto
  ultimately show ?case using Cons.IH by simp
qed

lemma one_Some_iff: "one P s = Some r \<longleftrightarrow> (\<exists>c. s = c # r \<and> P c)"
  by (auto simp: one_def split: list.splits)

lemma many1_Some_iff:
  "many1 P s = Some (a, r) \<longleftrightarrow> a = takeWhile P s \<and> r = dropWhile P s \<and> a \<noteq> []"
  by (auto simp: many1_def)

lemma run_split:
  assumes "\<forall>c \<in> set a. P c" and "r = [] \<or> \<not> P (hd r)"
  shows "takeWhile P (a @ r) = a" and "dropWhile P (a @ r) = r"
proof -
  from assms(2) have "takeWhile P r = []" "dropWhile P r = r"
    by (cases r; auto)+
  with assms(1) show "takeWhile P (a @ r) = a" "dropWhile P (a @ r) = r"
    by (simp_all add: takeWhile_append2 dropWhile_append2)
qed

lemma run_parts:
  "s = takeWhile P s @ dropWhile P s \<and> (\<forall>c \<in> set (takeWhile P s). P c)
     \<and> (dropWhile P s = [] \<or> \<not> P (hd (dropWhile P s)))"
  using hd_dropWhile [of P s] by (auto dest: set_takeWhileD)

lemma spaces_split:
  "\<forall>c \<in> set w. is_space c \<Longrightarrow> r = [] \<or> \<not> is_space (hd r) \<Longrightarrow> spaces (w @ r) = r"
  using run_split [of w is_space r] by (simp add: spaces_def)

lemma spaces_parts:
  "\<exists>w. s = w @ spaces s \<and> (\<forall>c \<in> set w. is_space c)"
  unfolding spaces_def using run_parts [of s is_space] by metis

lemma many1_split:
  "a \<noteq> [] \<Longrightarrow> \<forall>c \<in> set a. P c \<Longrightarrow> r = [] \<or> \<not> P (hd r) \<Longrightarrow> many1 P (a @ r) = Some (a, r)"
  using run_split [of a P r] by (simp add: many1_def)

lemma many1_parts:
  "many1 P s = Some (a, r) \<Longrightarrow> s = a @ r \<and> a \<noteq> [] \<and> (\<forall>c \<in> set a. P c) \<and> (r = [] \<or> \<not> P (hd r))"
  using run_parts [of s P] by (auto simp: many1_def split: if_splits)

lemma many_split:
  "\<forall>c \<in> set a. P c \<Longrightarrow> r = [] \<or> \<not> P (hd r) \<Longrightarrow> many P (a @ r) = (a, r)"
  using run_split [of a P r] by (simp add: many_def)

lemma many_parts:
  "many P s = (a, r) \<Longrightarrow> s = a @ r \<and> (\<forall>c \<in> set a. P c) \<and> (r = [] \<or> \<not> P (hd r))"
  using run_parts [of s P] by (auto simp: many_def)

section \<open>The pattern of a quoted message and a variable\<close>

lemma quote_not_space: "is_quote c \<Longrightarrow> \<not> is_space c"
  by (auto simp: is_quote_def is_space_def squote_def dquote_def backtick_def)

lemma word_not_space: "is_word c \<Longrightarrow> \<not> is_space c"
  by (auto simp: is_word_def is_space_def)

lemma space_not_word: "is_space c \<Longrightarrow> \<not> is_word c"
  by (auto simp: is_word_def is_space_def)

lemma punct_classes [simp]:
  "\<not> is_space 44" "\<not> is_space 41" "\<not> is_word 41"
  "\<not> is_space backtick" "\<not> is_quote 41" "\<not> is_quote 44"
  by (simp_all add: is_word_def is_space_def is_quote_def squote_def dquote_def backtick_def)

lemma match_str_var_call:
  assumes ws: "\<forall>c \<in> set w1. is_space c" "\<forall>c \<in> set w2. is_space c"
      "\<forall>c \<in> set w3. is_space c" "\<forall>c \<in> set w4. is_space c"
    and q: "is_quote q1" "is_quote q2"
    and msg: "msg \<noteq> []" "\<forall>c \<in> set msg. non_quote c"
    and v: "v \<noteq> []" "\<forall>c \<in> set v. is_word c"
  shows "match_str_var head
           (head @ w1 @ [q1] @ msg @ [q2] @ w2 @ (str '','') @ w3 @ v @ w4 @ (str '')'') @ rest)
         = Some (msg, v, rest)"
proof -
  let ?t7 = "ch (CHR '')'') # rest"
  let ?t6 = "w4 @ ?t7"
  let ?t5 = "v @ ?t6"
  let ?t4 = "ch (CHR '','') # w3 @ ?t5"
  let ?t3 = "q2 # w2 @ ?t4"
  let ?t2 = "msg @ ?t3"
  let ?t1 = "q1 # ?t2"
  have e1: "spaces (w1 @ ?t1) = ?t1"
    using ws(1) q(1) by (intro spaces_split) (auto simp: quote_not_space)
  have e2: "one is_quote ?t1 = Some ?t2"
    using q(1) by (simp add: one_def)
  have e3: "many1 non_quote ?t2 = Some (msg, ?t3)"
    using msg q(2) by (intro many1_split) (auto simp: non_quote_def)
  have e4: "one is_quote ?t3 = Some (w2 @ ?t4)"
    using q(2) by (simp add: one_def)
  have e5: "spaces (w2 @ ?t4) = ?t4"
    using ws(2) by (intro spaces_split) auto
  have e6: "lit (str '','') ?t4 = Some (w3 @ ?t5)"
    by simp
  have "hd ?t5 = hd v" using v(1) by simp
  then have "\<not> is_space (hd ?t5)" using v by (simp add: word_not_space)
  then have e7: "spaces (w3 @ ?t5) = ?t5"
    using ws(3) by (intro spaces_split) auto
  have "\<not> is_word (hd ?t6)"
    using ws(4) by (cases w4) (auto simp: space_not_word)
  then have e8: "many1 is_word ?t5 = Some (v, ?t6)"
    using v by (intro many1_split) auto
  have e9: "spaces ?t6 = ?t7"
    using ws(4) by (intro spaces_split) auto
  have e10: "lit (str '')'') ?t7 = Some rest"
    by simp
  have "lit head (head @ w1 @ ?t1) = Some (w1 @ ?t1)"
    by simp
  then show ?thesis
    unfolding match_str_var_def
    using e1 e2 e3 e4 e5 e6 e7 e8 e9 e10 by simp
qed

lemma one_spaces:
  "one P (spaces s) = Some r \<Longrightarrow> \<exists>w c. s = w @ c # r \<and> (\<forall>x \<in> set w. is_space x) \<and> P c"
  using spaces_parts [of s] by (auto simp: one_Some_iff)

lemma lit_spaces:
  "lit p (spaces s) = Some r \<Longrightarrow> \<exists>w. s = w @ p @ r \<and> (\<forall>x \<in> set w. is_space x)"
  using spaces_parts [of s] by (auto simp: lit_Some_iff)

lemma many1_spaces:
  "many1 P (spaces s) = Some (a, r) \<Longrightarrow>
     \<exists>w. s = w @ a @ r \<and> (\<forall>x \<in> set w. is_space x) \<and> a \<noteq> [] \<and> (\<forall>c \<in> set a. P c)"
  using spaces_parts [of s] many1_parts [of P "spaces s" a r] by auto

lemma many_spaces:
  "many P (spaces s) = (a, r) \<Longrightarrow>
     \<exists>w. s = w @ a @ r \<and> (\<forall>x \<in> set w. is_space x) \<and> (\<forall>c \<in> set a. P c)"
  using spaces_parts [of s] many_parts [of P "spaces s" a r] by auto

lemma match_str_var_shape:
  assumes "match_str_var head s = Some (msg, v, rest)"
  shows "\<exists>w1 q1 q2 w2 w3 w4.
           s = head @ w1 @ [q1] @ msg @ [q2] @ w2 @ (str '','') @ w3 @ v @ w4 @ (str '')'') @ rest
           \<and> (\<forall>c \<in> set (w1 @ w2 @ w3 @ w4). is_space c) \<and> is_quote q1 \<and> is_quote q2
           \<and> msg \<noteq> [] \<and> (\<forall>c \<in> set msg. non_quote c) \<and> v \<noteq> [] \<and> (\<forall>c \<in> set v. is_word c)"
proof -
  from assms obtain s1 s2 s3 s4 s5 s6 where
    a1: "lit head s = Some s1" and a2: "one is_quote (spaces s1) = Some s2"
    and a3: "many1 non_quote s2 = Some (msg, s3)" and a4: "one is_quote s3 = Some s4"
    and a5: "lit (str '','') (spaces s4) = Some s5" and a6: "many1 is_word (spaces s5) = Some (v, s6)"
    and a7: "lit (str '')'') (spaces s6) = Some rest"
    unfolding match_str_var_def
    by (auto simp: bind_eq_Some_conv)
  from a1 have b1: "s = head @ s1" by (simp add: lit_Some_iff)
  from a2 obtain w1 q1 where b2: "s1 = w1 @ q1 # s2" and c2: "\<forall>x \<in> set w1. is_space x" "is_quote q1"
    using one_spaces by blast
  from a3 have b3: "s2 = msg @ s3" and c3: "msg \<noteq> []" "\<forall>c \<in> set msg. non_quote c"
    using many1_parts by blast+
  from a4 obtain q2 where b4: "s3 = q2 # s4" and c4: "is_quote q2"
    by (auto simp: one_Some_iff)
  from a5 obtain w2 where b5: "s4 = w2 @ (str '','') @ s5" and c5: "\<forall>x \<in> set w2. is_space x"
    using lit_spaces by blast
  from a6 obtain w3 where b6: "s5 = w3 @ v @ s6"
    and c6: "\<forall>x \<in> set w3. is_space x" "v \<noteq> []" "\<forall>c \<in> set v. is_word c"
    using many1_spaces by blast
  from a7 obtain w4 where b7: "s6 = w4 @ (str '')'') @ rest" and c7: "\<forall>x \<in> set w4. is_space x"
    using lit_spaces by blast
  have "s = head @ w1 @ [q1] @ msg @ [q2] @ w2 @ (str '','') @ w3 @ v @ w4 @ (str '')'') @ rest"
    by (simp add: b1 b2 b3 b4 b5 b6 b7)
  moreover have "\<forall>c \<in> set (w1 @ w2 @ w3 @ w4). is_space c"
    using c2(1) c5 c6(1) c7 by auto
  ultimately show ?thesis
    using c2(2) c3 c4 c6(2,3) by blast
qed

section \<open>Substitution and trimming\<close>

lemma re_subn_match:
  assumes "m s = Some (r, rest)" and "length rest < length s"
  shows "re_subn m s = (r @ fst (re_subn m rest), Suc (snd (re_subn m rest)))"
  using assms by (cases s) (auto split: prod.splits)

lemma re_subn_skip:
  assumes "m (c # cs) = None"
  shows "re_subn m (c # cs) = (c # fst (re_subn m cs), snd (re_subn m cs))"
  using assms by (auto split: prod.splits)

lemma rev_split: "rev (dropWhile P (rev xs)) @ rev (takeWhile P (rev xs)) = xs"
  by (metis rev_append rev_rev_ident takeWhile_dropWhile_id)

lemma strip_parts:
  "\<exists>l t. s = l @ strip s @ t \<and> (\<forall>c \<in> set (l @ t). is_space c)"
proof -
  let ?d = "dropWhile is_space s"
  have d: "?d = strip s @ rev (takeWhile is_space (rev ?d))"
    using rev_split [of is_space ?d] by (simp add: strip_def)
  have "s = takeWhile is_space s @ ?d" by simp
  with d have "s = takeWhile is_space s @ strip s @ rev (takeWhile is_space (rev ?d))"
    by simp
  moreover have "\<forall>c \<in> set (takeWhile is_space s @ rev (takeWhile is_space (rev ?d))). is_space c"
    by (auto dest: set_takeWhileD)
  ultimately show ?thesis by blast
qed

lemma strip_ends:
  assumes "strip s \<noteq> []"
  shows "\<not> is_space (hd (strip s))" and "\<not> is_space (last (strip s))"
proof -
  let ?d = "dropWhile is_space s"
  let ?e = "dropWhile is_space (rev ?d)"
  have m: "strip s = rev ?e" by (simp add: strip_def)
  with assms have ne: "?e \<noteq> []" by simp
  then have "\<not> is_space (hd ?e)" by (rule hd_dropWhile)
  then show "\<not> is_space (last (strip s))"
    using ne m by (simp add: last_rev)
  have "?d = strip s @ rev (takeWhile is_space (rev ?d))"
    using rev_split [of is_space ?d] by (simp add: m)
  then have "hd ?d = hd (strip s)" and "?d \<noteq> []"
    using assms by (metis hd_append2, metis append_is_Nil_conv)
  then show "\<not> is_space (hd (strip s))"
    using hd_dropWhile [of is_space s] by simp
qed

lemma clean_msg_no_brackets: "ch (CHR ''['') \<notin> set (clean_msg msg)" "ch (CHR '']'') \<notin> set (clean_msg msg)"
proof -
  let ?f = "filter (\<lambda>c. c \<noteq> ch (CHR '']'')) (filter (\<lambda>c. c \<noteq> ch (CHR ''['')) msg)"
  obtain l t where "?f = l @ strip ?f @ t" using strip_parts by blast
  then have "set (strip ?f) \<subseteq> set ?f" by (metis Un_upper1 Un_upper2 set_append subset_trans)
  then show "ch (CHR ''['') \<notin> set (clean_msg msg)" "ch (CHR '']'') \<notin> set (clean_msg msg)"
    by (auto simp: clean_msg_def)
qed


section \<open>Texts in which no pattern matches\<close>

lemma re_subn_no_occurs: "\<not> occurs m s \<Longrightarrow> re_subn m s = (s, 0)"
proof (induction s)
  case Nil
  then show ?case by simp
next
  case (Cons c cs)
  then have "\<not> occurs m cs" by simp
  with Cons.IH have "re_subn m cs = (cs, 0)" by simp
  moreover have "m (c # cs) = None"
    using Cons.prems by (cases "m (c # cs)") auto
  ultimately show ?case by (simp add: re_subn_skip)
qed

lemma occurs_mono:
  assumes "\<And>t. m t \<noteq> None \<Longrightarrow> m' t \<noteq> None"
  shows "occurs m s \<Longrightarrow> occurs m' s"
  using assms by (induction s) auto

lemma occurs_key:
  assumes "\<And>t. m t \<noteq> None \<Longrightarrow> lit key t \<noteq> None"
  shows "occurs m s \<Longrightarrow> contains key s"
proof (induction s)
  case Nil
  then have "m [] \<noteq> None" by simp
  then have "lit key [] \<noteq> None" by (rule assms)
  then show ?case by (cases key) auto
next
  case (Cons c cs)
  show ?case
  proof (cases "m (c # cs) = None")
    case True
    with Cons show ?thesis by simp
  next
    case False
    then have "lit key (c # cs) \<noteq> None" by (rule assms)
    then show ?thesis by simp
  qed
qed

lemma lit_length: "lit p s = Some r \<Longrightarrow> length s = length p + length r"
  by (simp add: lit_Some_iff)

lemma match_console_progress:
  assumes "match_console t = Some (r, rest)"
  shows "length rest < length t"
proof -
  from assms obtain s1 where s1: "lit (str ''console.'') t = Some s1"
    and "lit (str ''log'') s1 = Some rest \<or> lit (str ''warn'') s1 = Some rest \<or> lit (str ''error'') s1 = Some rest"
    by (auto simp: match_console_def bind_eq_Some_conv split: option.splits)
  then have "length rest \<le> length s1"
    by (auto dest: lit_length)
  with s1 show ?thesis
    by (auto dest: lit_length)
qed

lemma count_console_zero_iff: "count_console s = 0 \<longleftrightarrow> \<not> occurs match_console s"
proof
  assume "\<not> occurs match_console s"
  then show "count_console s = 0"
    by (simp add: count_console_def re_count_def re_subn_no_occurs)
next
  show "count_console s = 0 \<Longrightarrow> \<not> occurs match_console s"
  proof (induction s)
    case Nil
    then show ?case by (simp add: match_console_def)
  next
    case (Cons c cs)
    show ?case
    proof (cases "match_console (c # cs)")
      case None
      with Cons show ?thesis
        by (auto simp: count_console_def re_count_def split: prod.splits)
    next
      case (Some p)
      obtain r rest where p: "p = (r, rest)" by (cases p)
      with Some have "length rest < length (c # cs)"
        using match_console_progress by blast
      with Some p Cons.prems show ?thesis
        by (auto simp: count_console_def re_count_def split: prod.splits)
    qed
  qed
qed

lemma heads_console:
  assumes "head = (str ''console.error('') \<or> head = (str ''console.warn('') \<or> head = (str ''console.log('')"
    and "lit head t = Some r"
  shows "match_console t \<noteq> None"
proof -
  from assms(2) obtain u where "lit (str ''console.'') t = Some u"
    and "lit (str ''log'') u \<noteq> None \<or> lit (str ''warn'') u \<noteq> None \<or> lit (str ''error'') u \<noteq> None"
    using assms(1) by (auto simp: lit_Some_iff)
  then show ?thesis
    by (auto simp: match_console_def split: option.splits)
qed

lemma pat_str_var_head: "pat_str_var head t \<noteq> None \<Longrightarrow> lit head t \<noteq> None"
  by (auto simp: pat_str_var_def match_str_var_def bind_eq_Some_conv)

lemma pat_template_head: "pat_template head level t \<noteq> None \<Longrightarrow> lit head t \<noteq> None"
  by (auto simp: pat_template_def match_template_def bind_eq_Some_conv)

lemma pat_simple_head: "pat_simple head level t \<noteq> None \<Longrightarrow> lit head t \<noteq> None"
  by (auto simp: pat_simple_def match_simple_def bind_eq_Some_conv)

lemma no_console_no_pattern:
  assumes "\<not> occurs match_console s"
    and "head = (str ''console.error('') \<or> head = (str ''console.warn('') \<or> head = (str ''console.log('')"
  shows "\<not> occurs (pat_str_var head) s" "\<not> occurs (pat_template head level) s"
    "\<not> occurs (pat_simple head level) s"
proof -
  have "\<And>t. pat_str_var head t \<noteq> None \<Longrightarrow> match_console t \<noteq> None"
    using heads_console [OF assms(2)] pat_str_var_head by blast
  then show "\<not> occurs (pat_str_var head) s"
    using assms(1) occurs_mono by blast
  have "\<And>t. pat_template head level t \<noteq> None \<Longrightarrow> match_console t \<noteq> None"
    using heads_console [OF assms(2)] pat_template_head by blast
  then show "\<not> occurs (pat_template head level) s"
    using assms(1) occurs_mono by blast
  have "\<And>t. pat_simple head level t \<noteq> None \<Longrightarrow> match_console t \<noteq> None"
    using heads_console [OF assms(2)] pat_simple_head by blast
  then show "\<not> occurs (pat_simple head level) s"
    using assms(1) occurs_mono by blast
qed

lemma no_console_matches_A: "\<not> occurs match_console s \<Longrightarrow> \<not> matches_A s"
  by (simp add: matches_A_def patterns_A_def no_console_no_pattern)

lemma passes_B_no_match: "\<not> matches_B s \<Longrightarrow> passes_B s = (s, 0)"
  by (simp add: matches_B_def patterns_B_def passes_B_def re_subn_no_occurs)

lemma rewrite_B_no_match: "\<not> matches_B s \<Longrightarrow> rewrite_B s = (0, s)"
  by (simp add: rewrite_B_def passes_B_no_match)

lemma rewrite_A_no_console: "\<not> occurs match_console s \<Longrightarrow> rewrite_A s = (s, 0)"
  using count_console_zero_iff [of s] by (simp add: rewrite_A_def)

section \<open>Unchanged texts and the import\<close>

lemma transform_A_passes: "transform_A s = passes_A (add_logger_import s)"
  by (simp add: transform_A_def passes_A_def)

lemma add_logger_import_present: "has_logger_import s \<Longrightarrow> add_logger_import s = s"
  by (simp add: add_logger_import_def)

lemma passes_A_no_match: "\<not> matches_A s \<Longrightarrow> passes_A s = s"
  by (simp add: matches_A_def patterns_A_def passes_A_def refactor_console_error_def
      refactor_console_warn_def refactor_console_log_def re_sub_def re_subn_no_occurs)

lemma re_subn_count_zero: "snd (re_subn m s) = 0 \<Longrightarrow> fst (re_subn m s) = s"
proof (induction s)
  case Nil
  then show ?case by simp
next
  case (Cons c cs)
  show ?case
  proof (cases "m (c # cs)")
    case None
    with Cons show ?thesis by (auto split: prod.splits)
  next
    case (Some p)
    obtain r rest where p: "p = (r, rest)" by (cases p)
    show ?thesis
    proof (cases "length rest \<le> length cs")
      case True
      with Some p Cons.prems show ?thesis by (auto split: prod.splits)
    next
      case False
      with Some p Cons show ?thesis by (auto split: prod.splits)
    qed
  qed
qed

lemma passes_B_count_zero: "snd (passes_B s) = 0 \<Longrightarrow> fst (passes_B s) = s"
proof -
  assume a: "snd (passes_B s) = 0"
  obtain c1 n1 where r1: "re_subn pattern1 s = (c1, n1)" by (cases "re_subn pattern1 s")
  obtain c2 n2 where r2: "re_subn pattern2 c1 = (c2, n2)" by (cases "re_subn pattern2 c1")
  obtain c3 n3 where r3: "re_subn pattern3 c2 = (c3, n3)" by (cases "re_subn pattern3 c2")
  obtain c4 n4 where r4: "re_subn pattern4 c3 = (c4, n4)" by (cases "re_subn pattern4 c3")
  obtain c5 n5 where r5: "re_subn pattern5 c4 = (c5, n5)" by (cases "re_subn pattern5 c4")
  have pb: "passes_B s = (c5, n1 + n2 + n3 + n4 + n5)"
    by (simp add: passes_B_def r1 r2 r3 r4 r5)
  with a have z: "n1 = 0" "n2 = 0" "n3 = 0" "n4 = 0" "n5 = 0" by simp_all
  have "c1 = s" using re_subn_count_zero [of pattern1 s] r1 z by simp
  moreover have "c2 = c1" using re_subn_count_zero [of pattern2 c1] r2 z by simp
  moreover have "c3 = c2" using re_subn_count_zero [of pattern3 c2] r3 z by simp
  moreover have "c4 = c3" using re_subn_count_zero [of pattern4 c3] r4 z by simp
  moreover have "c5 = c4" using re_subn_count_zero [of pattern5 c4] r5 z by simp
  ultimately show ?thesis using pb by simp
qed

lemma match_console_key:
  assumes "match_console t \<noteq> None"
  shows "lit (str ''console.log'') t \<noteq> None \<or> lit (str ''console.warn'') t \<noteq> None
         \<or> lit (str ''console.error'') t \<noteq> None"
proof -
  from assms obtain u where u: "lit (str ''console.'') t = Some u"
    and "lit (str ''log'') u \<noteq> None \<or> lit (str ''warn'') u \<noteq> None \<or> lit (str ''error'') u \<noteq> None"
    by (auto simp: match_console_def bind_eq_Some_conv split: option.splits)
  then obtain r where "u = (str ''log'') @ r \<or> u = (str ''warn'') @ r \<or> u = (str ''error'') @ r"
    by (auto simp: lit_Some_iff)
  moreover from u have "t = (str ''console.'') @ u" by (simp add: lit_Some_iff)
  ultimately have "t = (str ''console.log'') @ r \<or> t = (str ''console.warn'') @ r \<or> t = (str ''console.error'') @ r"
    by auto
  then show ?thesis by (auto simp: lit_Some_iff)
qed

lemma no_token_no_console:
  assumes "\<not> contains (str ''console.log'') s" and "\<not> contains (str ''console.warn'') s"
    and "\<not> contains (str ''console.error'') s"
  shows "\<not> occurs match_console s"
  using assms
proof (induction s)
  case Nil
  then show ?case by (simp add: match_console_def)
next
  case (Cons c cs)
  then have "lit (str ''console.log'') (c # cs) = None" "lit (str ''console.warn'') (c # cs) = None"
    "lit (str ''console.error'') (c # cs) = None"
    by auto
  then have "match_console (c # cs) = None"
    using match_console_key by blast
  moreover from Cons have "\<not> occurs match_console cs" by simp
  ultimately show ?case by simp
qed

lemma match_icons_head: "match_icons head t \<noteq> None \<Longrightarrow> lit head t \<noteq> None"
  by (auto simp: match_icons_def bind_eq_Some_conv lit_Some_iff)

lemma match_sq_data_head: "match_sq_data head t \<noteq> None \<Longrightarrow> lit head t \<noteq> None"
  by (auto simp: match_sq_data_def bind_eq_Some_conv lit_Some_iff)

lemma patterns_B_console:
  assumes "pattern1 t \<noteq> None \<or> pattern2 t \<noteq> None \<or> pattern3 t \<noteq> None
           \<or> pattern4 t \<noteq> None \<or> pattern5 t \<noteq> None"
  shows "match_console t \<noteq> None"
proof -
  from assms have "lit (str ''console.log('') t \<noteq> None \<or> lit (str ''console.warn('') t \<noteq> None
      \<or> lit (str ''console.error('') t \<noteq> None"
    unfolding pattern1_def pattern2_def pattern3_def pattern4_def pattern5_def
    using match_icons_head match_sq_data_head by fastforce
  then show ?thesis using heads_console by blast
qed

lemma no_console_matches_B: "\<not> occurs match_console s \<Longrightarrow> \<not> matches_B s"
proof -
  assume a: "\<not> occurs match_console s"
  have "\<not> occurs pattern1 s" using a occurs_mono [of pattern1 match_console s] patterns_B_console by blast
  moreover have "\<not> occurs pattern2 s" using a occurs_mono [of pattern2 match_console s] patterns_B_console by blast
  moreover have "\<not> occurs pattern3 s" using a occurs_mono [of pattern3 match_console s] patterns_B_console by blast
  moreover have "\<not> occurs pattern4 s" using a occurs_mono [of pattern4 match_console s] patterns_B_console by blast
  moreover have "\<not> occurs pattern5 s" using a occurs_mono [of pattern5 match_console s] patterns_B_console by blast
  ultimately show ?thesis by (simp add: matches_B_def patterns_B_def)
qed


text \<open>
  Claim C1 fails on refactor-logger.py: in the text \<open>console.log(x)\<close> none of the eight
  patterns matches and the import is absent, yet the function ends with the import line in
  front of the text.
\<close>

theorem import_without_replacement_counterexample:
  "\<not> matches_A (str ''console.log(x)'')
   \<and> \<not> has_logger_import (str ''console.log(x)'')
   \<and> fst (rewrite_A (str ''console.log(x)'')) = import_line @ [newline, newline] @ (str ''console.log(x)'')"
  by code_simp

text \<open>
  Claim C1, amended. refactor-logger.py inserts the import line only if the text has an
  occurrence of \<open>console.log\<close>, \<open>console.warn\<close> or \<open>console.error\<close> and holds neither
  quoted form of the import source, and in that case it always runs the passes on the text
  with the import added, whether or not a pattern then matches; a text with no such occurrence
  comes back unchanged. refactor\_logs.py inserts the import line only if at least one
  replacement was made, the rewritten text holds neither \<open>log, logError\<close> nor the import
  line, and an import statement is found; a text in which none of its patterns matches comes
  back unchanged.
\<close>

theorem import_needs_console_token:
  "(fst (rewrite_A s) \<noteq> passes_A s \<longrightarrow> count_console s \<noteq> 0 \<and> \<not> has_logger_import s)
   \<and> (count_console s \<noteq> 0 \<longrightarrow> fst (rewrite_A s) = passes_A (add_logger_import s))
   \<and> (count_console s = 0 \<longrightarrow> rewrite_A s = (s, 0))
   \<and> (snd (rewrite_B s) \<noteq> fst (passes_B s) \<longrightarrow>
         0 < snd (passes_B s) \<and> \<not> contains (str ''log, logError'') (fst (passes_B s))
         \<and> \<not> contains import_line (fst (passes_B s))
         \<and> (\<exists>pre post. search_import (fst (passes_B s)) = Some (pre, post)
               \<and> snd (rewrite_B s) = pre @ [newline] @ import_line @ post))
   \<and> (\<not> matches_B s \<longrightarrow> rewrite_B s = (0, s))"
proof (intro conjI impI)
  assume a: "fst (rewrite_A s) \<noteq> passes_A s"
  show "count_console s \<noteq> 0"
  proof
    assume z: "count_console s = 0"
    then have "\<not> matches_A s"
      using count_console_zero_iff no_console_matches_A by blast
    then have "passes_A s = s" by (rule passes_A_no_match)
    with z a show False by (simp add: rewrite_A_def)
  qed
  show "\<not> has_logger_import s"
  proof
    assume "has_logger_import s"
    then have "transform_A s = passes_A s"
      by (simp add: transform_A_passes add_logger_import_present)
    moreover have "count_console s = 0 \<Longrightarrow> passes_A s = s"
      using count_console_zero_iff no_console_matches_A passes_A_no_match by blast
    ultimately have "fst (rewrite_A s) = passes_A s"
      by (auto simp: rewrite_A_def Let_def)
    with a show False by simp
  qed
next
  assume "count_console s \<noteq> 0"
  then show "fst (rewrite_A s) = passes_A (add_logger_import s)"
    by (simp add: rewrite_A_def Let_def transform_A_passes)
next
  assume "count_console s = 0"
  then show "rewrite_A s = (s, 0)" by (simp add: rewrite_A_def)
next
  assume a: "snd (rewrite_B s) \<noteq> fst (passes_B s)"
  obtain c n where cn: "passes_B s = (c, n)" by (cases "passes_B s")
  have n: "0 < n"
  proof (rule ccontr)
    assume "\<not> 0 < n"
    then have "n = 0" by simp
    with cn have "c = s" using passes_B_count_zero [of s] by simp
    with \<open>n = 0\<close> cn a show False by (simp add: rewrite_B_def)
  qed
  with cn a have i: "insert_import_B n c \<noteq> c" by (simp add: rewrite_B_def)
  then have "\<not> contains (str ''log, logError'') c" "\<not> contains import_line c"
    "\<exists>pre post. search_import c = Some (pre, post)
        \<and> insert_import_B n c = pre @ [newline] @ import_line @ post"
    by (auto simp: insert_import_B_def split: if_splits option.splits)
  with n cn show "0 < snd (passes_B s)" "\<not> contains (str ''log, logError'') (fst (passes_B s))"
    "\<not> contains import_line (fst (passes_B s))"
    "\<exists>pre post. search_import (fst (passes_B s)) = Some (pre, post)
        \<and> snd (rewrite_B s) = pre @ [newline] @ import_line @ post"
    by (simp_all add: rewrite_B_def)
next
  assume "\<not> matches_B s"
  then show "rewrite_B s = (0, s)" by (rule rewrite_B_no_match)
qed

theorem import_needs_console_token_witness:
  "fst (rewrite_A (str ''console.log(x)'')) \<noteq> passes_A (str ''console.log(x)'')
   \<and> count_console (str ''console.log(x)'') \<noteq> 0 \<and> \<not> has_logger_import (str ''console.log(x)'')
   \<and> fst (rewrite_A (str ''console.log(x)'')) = passes_A (add_logger_import (str ''console.log(x)''))
   \<and> count_console (str ''let x = 1'') = 0 \<and> rewrite_A (str ''let x = 1'') = ((str ''let x = 1''), 0)
   \<and> snd (rewrite_B (str ''import a;console.log('x', y);''))
       \<noteq> fst (passes_B (str ''import a;console.log('x', y);''))
   \<and> 0 < snd (passes_B (str ''import a;console.log('x', y);''))
   \<and> \<not> contains (str ''log, logError'') (fst (passes_B (str ''import a;console.log('x', y);'')))
   \<and> \<not> matches_B (str ''console.log(x)'') \<and> rewrite_B (str ''console.log(x)'') = (0, (str ''console.log(x)''))"
proof -
  have h1: "fst (rewrite_A (str ''console.log(x)'')) \<noteq> passes_A (str ''console.log(x)'')"
    by code_simp
  have h2: "count_console (str ''let x = 1'') = 0"
    by code_simp
  have h3: "snd (rewrite_B (str ''import a;console.log('x', y);''))
       \<noteq> fst (passes_B (str ''import a;console.log('x', y);''))"
    by code_simp
  have h4: "\<not> matches_B (str ''console.log(x)'')"
    by code_simp
  show ?thesis
    using h1 h2 h3 h4
      import_needs_console_token [of "(str ''console.log(x)'')"]
      import_needs_console_token [of "(str ''let x = 1'')"]
      import_needs_console_token [of "(str ''import a;console.log('x', y);'')"]
    by blast
qed

section \<open>The second application and the file written\<close>




lemma refactor_file_A_cases:
  assumes "refactor_file_A fs p = (fs', ok, n)"
  shows "fs' = fs
         \<or> (\<exists>old. fs p = Some (File old True) \<and> count_console old \<noteq> 0
               \<and> transform_A old \<noteq> old \<and> fs' = fs(p \<mapsto> File (transform_A old) True))"
  using assms
  by (auto simp: refactor_file_A_def read_text_def write_text_def Let_def
      split: option.splits node.splits if_splits sum.splits bool.splits)

lemma refactor_file_A_no_console:
  assumes "fs p = Some (File old w)" and "count_console old = 0"
  shows "refactor_file_A fs p = (fs, True, 0)"
  using assms by (simp add: refactor_file_A_def read_text_def)

lemma main_B_cases:
  "files (main_B args fs) = fs
   \<or> (\<exists>p others old. args = p # others \<and> fs p = Some (File old True)
         \<and> 0 < fst (rewrite_B old)
         \<and> files (main_B args fs) = fs(p \<mapsto> File (snd (rewrite_B old)) True))"
  by (auto simp: main_B_def read_text_def write_text_def exists_path_def
      split: list.splits option.splits node.splits if_splits sum.splits bool.splits prod.splits)

text \<open>
  Claim C9 fails on refactor-logger.py: no pattern matches in a file that holds
  \<open>console.log(x)\<close>, and the run still writes the file, with the import line added.
\<close>

theorem file_rewritten_without_match_counterexample:
  "\<not> matches_A (str ''console.log(x)'')
   \<and> files (main_A [''f.ts''] [''f.ts'' \<mapsto> File (str ''console.log(x)'') True]) ''f.ts''
       = Some (File (import_line @ [newline, newline] @ (str ''console.log(x)'')) True)"
  by code_simp

text \<open>
  Claim C9, amended. \<open>refactor_file\<close> of refactor-logger.py leaves the file system as it
  is or writes the one file with a content that differs from the one read, and it writes
  nothing to a file without an occurrence of \<open>console.log\<close>, \<open>console.warn\<close> or
  \<open>console.error\<close>. \<open>main\<close> of refactor\_logs.py writes the file of its first argument
  exactly when the count of replacements is positive, and leaves a file in which none of its
  patterns matches as it is.
\<close>

theorem write_only_on_change:
  "(refactor_file_A fs p = (fs', ok, n) \<longrightarrow>
      fs' = fs
      \<or> (\<exists>old. fs p = Some (File old True) \<and> count_console old \<noteq> 0
            \<and> transform_A old \<noteq> old \<and> fs' = fs(p \<mapsto> File (transform_A old) True)))
   \<and> (fs p = Some (File old w) \<and> count_console old = 0 \<longrightarrow>
        refactor_file_A fs p = (fs, True, 0))
   \<and> (files (main_B args fs) = fs
      \<or> (\<exists>q others c. args = q # others \<and> fs q = Some (File c True) \<and> 0 < fst (rewrite_B c)
            \<and> files (main_B args fs) = fs(q \<mapsto> File (snd (rewrite_B c)) True)))
   \<and> (args = p # rest \<and> fs p = Some (File old w) \<and> \<not> matches_B old \<longrightarrow>
        files (main_B args fs) = fs)"
proof (intro conjI impI)
  assume "refactor_file_A fs p = (fs', ok, n)"
  then show "fs' = fs
      \<or> (\<exists>old. fs p = Some (File old True) \<and> count_console old \<noteq> 0
            \<and> transform_A old \<noteq> old \<and> fs' = fs(p \<mapsto> File (transform_A old) True))"
    by (rule refactor_file_A_cases)
next
  assume "fs p = Some (File old w) \<and> count_console old = 0"
  then show "refactor_file_A fs p = (fs, True, 0)"
    using refactor_file_A_no_console by blast
next
  show "files (main_B args fs) = fs
      \<or> (\<exists>q others c. args = q # others \<and> fs q = Some (File c True) \<and> 0 < fst (rewrite_B c)
            \<and> files (main_B args fs) = fs(q \<mapsto> File (snd (rewrite_B c)) True))"
    by (rule main_B_cases)
next
  assume a: "args = p # rest \<and> fs p = Some (File old w) \<and> \<not> matches_B old"
  then have "rewrite_B old = (0, old)" using rewrite_B_no_match by blast
  with a show "files (main_B args fs) = fs"
    by (simp add: main_B_def read_text_def exists_path_def)
qed

theorem write_only_on_change_witness:
  "fst (refactor_file_A [''a.ts'' \<mapsto> File (str ''console.log('hi')'') True] ''a.ts'') ''a.ts''
     = Some (File (transform_A (str ''console.log('hi')'')) True)
   \<and> transform_A (str ''console.log('hi')'') \<noteq> (str ''console.log('hi')'')
   \<and> count_console (str ''let x = 1'') = 0
   \<and> refactor_file_A [''a.ts'' \<mapsto> File (str ''let x = 1'') True] ''a.ts''
     = ([''a.ts'' \<mapsto> File (str ''let x = 1'') True], True, 0)
   \<and> \<not> matches_B (str ''console.log(x)'')
   \<and> files (main_B [''a.ts''] [''a.ts'' \<mapsto> File (str ''console.log(x)'') True])
     = [''a.ts'' \<mapsto> File (str ''console.log(x)'') True]"
proof -
  let ?fs = "[''a.ts'' \<mapsto> File (str ''console.log('hi')'') True]"
  let ?R = "refactor_file_A ?fs ''a.ts''"
  have h0: "?R = (fst ?R, fst (snd ?R), snd (snd ?R))" by simp
  have h1: "fst ?R ''a.ts'' = Some (File (transform_A (str ''console.log('hi')'')) True)"
    by code_simp
  have h2: "transform_A (str ''console.log('hi')'') \<noteq> (str ''console.log('hi')'')"
    by code_simp
  have h3: "count_console (str ''let x = 1'') = 0" by code_simp
  have h4: "\<not> matches_B (str ''console.log(x)'')" by code_simp
  from h1 h2 have ne: "fst ?R \<noteq> ?fs" by (metis fun_upd_same node.inject option.inject)
  from write_only_on_change [of ?fs "''a.ts''" "fst ?R" "fst (snd ?R)" "snd (snd ?R)"] h0 ne
  have "\<exists>old. ?fs ''a.ts'' = Some (File old True) \<and> count_console old \<noteq> 0
            \<and> transform_A old \<noteq> old \<and> fst ?R = ?fs(''a.ts'' \<mapsto> File (transform_A old) True)"
    by blast
  then have w1: "transform_A (str ''console.log('hi')'') \<noteq> (str ''console.log('hi')'')" by auto
  from write_only_on_change [of "[''a.ts'' \<mapsto> File (str ''let x = 1'') True]" "''a.ts''"
      _ _ _ "(str ''let x = 1'')" True] h3
  have w2: "refactor_file_A [''a.ts'' \<mapsto> File (str ''let x = 1'') True] ''a.ts''
     = ([''a.ts'' \<mapsto> File (str ''let x = 1'') True], True, 0)" by simp
  from write_only_on_change [of "[''a.ts'' \<mapsto> File (str ''console.log(x)'') True]" "''a.ts''"
      _ _ _ "(str ''console.log(x)'')" True "[''a.ts'']" "[]"] h4
  have w3: "files (main_B [''a.ts''] [''a.ts'' \<mapsto> File (str ''console.log(x)'') True])
     = [''a.ts'' \<mapsto> File (str ''console.log(x)'') True]" by simp
  show ?thesis using h1 w1 h3 w2 h4 w3 by blast
qed

section \<open>The loop over the arguments\<close>

lemma refactor_file_A_exists:
  assumes "refactor_file_A fs p = (fs', ok, n)"
  shows "exists_path fs' q = exists_path fs q"
  using refactor_file_A_cases [OF assms] by (auto simp: exists_path_def split: if_splits)

lemma process_args_A_status: "status (process_args_A args r) = status r"
  by (induction args r rule: process_args_A.induct) (auto split: prod.splits)

lemma process_args_A_exists:
  "exists_path (files (process_args_A args r)) q = exists_path (files r) q"
proof (induction args r rule: process_args_A.induct)
  case (1 r)
  then show ?case by simp
next
  case (2 file_arg rest r)
  show ?case
  proof (cases "exists_path (files r) file_arg")
    case False
    with 2 show ?thesis by simp
  next
    case True
    obtain fs' ok n where rf: "refactor_file_A (files r) file_arg = (fs', ok, n)"
      by (cases "refactor_file_A (files r) file_arg")
    then have "exists_path fs' q = exists_path (files r) q" by (rule refactor_file_A_exists)
    with 2 True rf show ?thesis by (cases ok) auto
  qed
qed

lemma process_args_A_count:
  "length (results (process_args_A args r)) + length (reported (process_args_A args r))
     = length args + length (results r) + length (reported r)"
  by (induction args r rule: process_args_A.induct) (auto split: prod.splits)

lemma process_args_A_reported_mono:
  "set (reported r) \<subseteq> set (reported (process_args_A args r))"
proof (induction args r rule: process_args_A.induct)
  case (1 r)
  then show ?case by simp
next
  case (2 file_arg rest r)
  show ?case
  proof (cases "exists_path (files r) file_arg")
    case False
    with 2 show ?thesis by auto
  next
    case True
    obtain fs' ok n where rf: "refactor_file_A (files r) file_arg = (fs', ok, n)"
      by (cases "refactor_file_A (files r) file_arg")
    with 2 True show ?thesis by (cases ok) auto
  qed
qed

lemma process_args_A_missing:
  "p \<in> set args \<Longrightarrow> \<not> exists_path (files r) p \<Longrightarrow> p \<in> set (reported (process_args_A args r))"
proof (induction args r rule: process_args_A.induct)
  case (1 r)
  then show ?case by simp
next
  case (2 file_arg rest r)
  show ?case
  proof (cases "exists_path (files r) file_arg")
    case False
    show ?thesis
    proof (cases "p = file_arg")
      case True
      have "file_arg \<in> set (reported (r\<lparr>reported := reported r @ [file_arg]\<rparr>))" by simp
      then have "file_arg \<in> set (reported (process_args_A rest (r\<lparr>reported := reported r @ [file_arg]\<rparr>)))"
        using process_args_A_reported_mono by blast
      with False True show ?thesis by simp
    next
      case neq: False
      with 2 False show ?thesis by simp
    qed
  next
    case True
    with 2 have pne: "p \<noteq> file_arg" "p \<in> set rest" by auto
    obtain fs' ok n where rf: "refactor_file_A (files r) file_arg = (fs', ok, n)"
      by (cases "refactor_file_A (files r) file_arg")
    then have "exists_path fs' p = exists_path (files r) p" by (rule refactor_file_A_exists)
    with "2.prems"(2) have ne: "\<not> exists_path fs' p" by simp
    show ?thesis
    proof (cases ok)
      case True
      with "2.IH"(2) [OF _ rf [symmetric]] \<open>exists_path (files r) file_arg\<close> pne ne rf
      show ?thesis by simp
    next
      case False
      with "2.IH"(3) [OF _ rf [symmetric]] \<open>exists_path (files r) file_arg\<close> pne ne rf
      show ?thesis by simp
    qed
  qed
qed

section \<open>Exit status\<close>

lemma refactor_file_A_unreadable:
  assumes "refactor_file_A fs p = (fs', ok, n)" and "fs q = Some Unreadable"
  shows "fs' q = Some Unreadable"
  using refactor_file_A_cases [OF assms(1)] assms(2) by (auto split: if_splits)

lemma refactor_file_A_read_fails:
  "fs p = Some Unreadable \<Longrightarrow> refactor_file_A fs p = (fs, False, 0)"
  by (simp add: refactor_file_A_def read_text_def)

lemma process_args_A_unreadable:
  "p \<in> set args \<Longrightarrow> files r p = Some Unreadable \<Longrightarrow> p \<in> set (reported (process_args_A args r))"
proof (induction args r rule: process_args_A.induct)
  case (1 r)
  then show ?case by simp
next
  case (2 file_arg rest r)
  from "2.prems"(2) have ex: "exists_path (files r) p" by (simp add: exists_path_def)
  show ?case
  proof (cases "p = file_arg")
    case True
    with "2.prems"(2) have rf: "refactor_file_A (files r) file_arg = (files r, False, 0)"
      by (simp add: refactor_file_A_read_fails)
    have "file_arg \<in> set (reported (r\<lparr>files := files r, reported := reported r @ [file_arg]\<rparr>))"
      by simp
    then have "file_arg
        \<in> set (reported (process_args_A rest (r\<lparr>files := files r, reported := reported r @ [file_arg]\<rparr>)))"
      using process_args_A_reported_mono by blast
    with True ex rf show ?thesis by simp
  next
    case False
    with "2.prems"(1) have pr: "p \<in> set rest" by simp
    show ?thesis
    proof (cases "exists_path (files r) file_arg")
      case nex: False
      with "2.IH"(1) pr "2.prems"(2) show ?thesis by simp
    next
      case True
      obtain fs' ok n where rf: "refactor_file_A (files r) file_arg = (fs', ok, n)"
        by (cases "refactor_file_A (files r) file_arg")
      then have u: "fs' p = Some Unreadable"
        using "2.prems"(2) refactor_file_A_unreadable by blast
      show ?thesis
      proof (cases ok)
        case ok: True
        with "2.IH"(2) [OF _ rf [symmetric]] True pr u rf show ?thesis by simp
      next
        case nok: False
        with "2.IH"(3) [OF _ rf [symmetric]] True pr u rf show ?thesis by simp
      qed
    qed
  qed
qed

lemma main_B_status:
  "status (main_B args fs) = 0
     \<longleftrightarrow> (\<exists>q others c w. args = q # others \<and> fs q = Some (File c w)
            \<and> (fst (rewrite_B c) = 0 \<or> w))"
  by (auto simp: main_B_def read_text_def write_text_def exists_path_def
      split: list.splits option.splits node.splits if_splits sum.splits bool.splits prod.splits)

lemma refactor_file_A_readonly:
  assumes "refactor_file_A fs p = (fs', ok, n)" and "fs q = Some (File c False)"
  shows "fs' q = Some (File c False)"
  using refactor_file_A_cases [OF assms(1)] assms(2) by (auto split: if_splits)

lemma refactor_file_A_write_fails:
  assumes "fs p = Some (File c False)" and "count_console c \<noteq> 0" and "transform_A c \<noteq> c"
  shows "refactor_file_A fs p = (fs, False, 0)"
  using assms by (simp add: refactor_file_A_def read_text_def write_text_def Let_def)

lemma process_args_A_readonly:
  assumes "count_console c \<noteq> 0" and "transform_A c \<noteq> c"
  shows "p \<in> set args \<Longrightarrow> files r p = Some (File c False)
           \<Longrightarrow> p \<in> set (reported (process_args_A args r))"
proof (induction args r rule: process_args_A.induct)
  case (1 r)
  then show ?case by simp
next
  case (2 file_arg rest r)
  from "2.prems"(2) have ex: "exists_path (files r) p" by (simp add: exists_path_def)
  show ?case
  proof (cases "p = file_arg")
    case True
    with "2.prems"(2) assms have rf: "refactor_file_A (files r) file_arg = (files r, False, 0)"
      by (simp add: refactor_file_A_write_fails)
    have "file_arg \<in> set (reported (r\<lparr>files := files r, reported := reported r @ [file_arg]\<rparr>))"
      by simp
    then have "file_arg
        \<in> set (reported (process_args_A rest (r\<lparr>files := files r, reported := reported r @ [file_arg]\<rparr>)))"
      using process_args_A_reported_mono by blast
    with True ex rf show ?thesis by simp
  next
    case False
    with "2.prems"(1) have pr: "p \<in> set rest" by simp
    show ?thesis
    proof (cases "exists_path (files r) file_arg")
      case nex: False
      with "2.IH"(1) pr "2.prems"(2) show ?thesis by simp
    next
      case True
      obtain fs' ok n where rf: "refactor_file_A (files r) file_arg = (fs', ok, n)"
        by (cases "refactor_file_A (files r) file_arg")
      then have u: "fs' p = Some (File c False)"
        using "2.prems"(2) refactor_file_A_readonly by blast
      show ?thesis
      proof (cases ok)
        case ok: True
        with "2.IH"(2) [OF _ rf [symmetric]] True pr u rf show ?thesis by simp
      next
        case nok: False
        with "2.IH"(3) [OF _ rf [symmetric]] True pr u rf show ?thesis by simp
      qed
    qed
  qed
qed





section \<open>Lines and the last import\<close>

lemma split_nl_nonempty: "split_nl s \<noteq> []"
  by (induction s) (auto split: list.splits)

lemma join_split: "join_nl (split_nl s) = s"
proof (induction s)
  case Nil
  then show ?case by simp
next
  case (Cons c cs)
  obtain l ls where sp: "split_nl cs = l # ls"
    using split_nl_nonempty [of cs] by (cases "split_nl cs") auto
  show ?case
  proof (cases "c = newline")
    case True
    with Cons sp show ?thesis by simp
  next
    case False
    with Cons sp show ?thesis by (cases ls) auto
  qed
qed

lemma join_nl_append:
  "a \<noteq> [] \<Longrightarrow> b \<noteq> [] \<Longrightarrow> join_nl (a @ b) = join_nl a @ newline # join_nl b"
proof (induction a rule: join_nl.induct)
  case 1
  then show ?case by simp
next
  case (2 l)
  then show ?case by (cases b) auto
next
  case (3 l v va)
  then show ?case by simp
qed

lemma join_nl_insert:
  assumes "0 < k" and "k \<le> length ls"
  shows "\<exists>pre post. join_nl ls = pre @ post
           \<and> join_nl (take k ls @ [x] @ drop k ls) = pre @ [newline] @ x @ post"
proof (cases "k < length ls")
  case True
  let ?a = "take k ls" and ?b = "drop k ls"
  from assms True have ne: "?a \<noteq> []" "?b \<noteq> []" by auto
  have "join_nl ls = join_nl (?a @ ?b)" by simp
  also have "\<dots> = join_nl ?a @ newline # join_nl ?b"
    using ne by (rule join_nl_append)
  finally have 1: "join_nl ls = join_nl ?a @ (newline # join_nl ?b)" .
  have "join_nl (?a @ ([x] @ ?b)) = join_nl ?a @ newline # join_nl ([x] @ ?b)"
    using ne by (intro join_nl_append) auto
  moreover have "join_nl ([x] @ ?b) = join_nl [x] @ newline # join_nl ?b"
    using ne by (intro join_nl_append) auto
  ultimately have "join_nl (?a @ [x] @ ?b) = join_nl ?a @ [newline] @ x @ (newline # join_nl ?b)"
    by simp
  with 1 show ?thesis by blast
next
  case False
  with assms have k: "k = length ls" and ne: "ls \<noteq> []" by auto
  then have "join_nl (take k ls @ [x] @ drop k ls) = join_nl ls @ newline # join_nl [x]"
    using join_nl_append [of ls "[x]"] by simp
  then have "join_nl ls = join_nl ls @ []
      \<and> join_nl (take k ls @ [x] @ drop k ls) = join_nl ls @ [newline] @ x @ []"
    by simp
  then show ?thesis by blast
qed

lemma last_import_idx_none:
  "\<forall>l \<in> set lines. \<not> is_import_line l \<Longrightarrow> last_import_idx lines i acc = acc"
  by (induction lines i acc rule: last_import_idx.induct) auto

lemma last_import_idx_some:
  "\<exists>l \<in> set lines. is_import_line l \<Longrightarrow>
     \<exists>j < length lines. last_import_idx lines i acc = int (i + j) \<and> is_import_line (lines ! j)
        \<and> (\<forall>k. j < k \<and> k < length lines \<longrightarrow> \<not> is_import_line (lines ! k))"
proof (induction lines i acc rule: last_import_idx.induct)
  case (1 i acc)
  then show ?case by simp
next
  case (2 line lines i acc)
  let ?acc = "if is_import_line line then int i else acc"
  show ?case
  proof (cases "\<exists>l \<in> set lines. is_import_line l")
    case True
    from "2.IH" [OF True] obtain j where j: "j < length lines"
      "last_import_idx lines (Suc i) ?acc = int (Suc i + j)" "is_import_line (lines ! j)"
      "\<forall>k. j < k \<and> k < length lines \<longrightarrow> \<not> is_import_line (lines ! k)"
      by blast
    have "\<forall>k. Suc j < k \<and> k < length (line # lines) \<longrightarrow> \<not> is_import_line ((line # lines) ! k)"
    proof (intro allI impI)
      fix k assume k: "Suc j < k \<and> k < length (line # lines)"
      then obtain k' where "k = Suc k'" by (cases k) auto
      with k j(4) show "\<not> is_import_line ((line # lines) ! k)" by simp
    qed
    with j show ?thesis
      by (intro exI [of _ "Suc j"]) simp
  next
    case False
    with "2.prems" have l: "is_import_line line" by auto
    from False have "last_import_idx lines (Suc i) ?acc = ?acc"
      using last_import_idx_none by blast
    with l have "last_import_idx (line # lines) i acc = int (i + 0)" by simp
    moreover have "\<forall>k. 0 < k \<and> k < length (line # lines) \<longrightarrow> \<not> is_import_line ((line # lines) ! k)"
    proof (intro allI impI)
      fix k assume k: "0 < k \<and> k < length (line # lines)"
      then obtain k' where k': "k = Suc k'" by (cases k) auto
      with k have "lines ! k' \<in> set lines" by simp
      with False k' show "\<not> is_import_line ((line # lines) ! k)" by simp
    qed
    ultimately show ?thesis using l
      by (intro exI [of _ 0]) simp
  qed
qed

lemma add_logger_import_cases:
  assumes "\<not> has_logger_import s"
  shows "(if \<exists>l \<in> set (split_nl s). is_import_line l
          then \<exists>j < length (split_nl s).
                 is_import_line (split_nl s ! j)
                 \<and> (\<forall>k. j < k \<and> k < length (split_nl s) \<longrightarrow> \<not> is_import_line (split_nl s ! k))
                 \<and> add_logger_import s
                     = join_nl (take (Suc j) (split_nl s) @ [import_line] @ drop (Suc j) (split_nl s))
          else add_logger_import s = import_line @ [newline, newline] @ s)"
proof (cases "\<exists>l \<in> set (split_nl s). is_import_line l")
  case True
  from last_import_idx_some [OF True, of 0 "- 1"] obtain j where j: "j < length (split_nl s)"
    "last_import_idx (split_nl s) 0 (- 1) = int j" "is_import_line (split_nl s ! j)"
    "\<forall>k. j < k \<and> k < length (split_nl s) \<longrightarrow> \<not> is_import_line (split_nl s ! k)"
    by auto
  have "nat (int j + 1) = Suc j" by simp
  with j(2) assms have "add_logger_import s
      = join_nl (take (Suc j) (split_nl s) @ [import_line] @ drop (Suc j) (split_nl s))"
    by (simp add: add_logger_import_def Let_def)
  with True j show ?thesis by auto
next
  case False
  then have "last_import_idx (split_nl s) 0 (- 1) = - 1"
    using last_import_idx_none by blast
  with False assms show ?thesis
    by (simp add: add_logger_import_def Let_def)
qed

section \<open>Where the import goes\<close>

lemma contains_trans: "contains a b \<Longrightarrow> contains b c \<Longrightarrow> contains a c"
proof -
  assume "contains a b" and "contains b c"
  then obtain p q p' q' where "b = p @ a @ q" and "c = p' @ b @ q'"
    by (auto simp: contains_iff)
  then have "c = (p' @ p) @ a @ (q @ q')" by simp
  then show ?thesis unfolding contains_iff by blast
qed

lemma contains_middle: "contains a (p @ a @ q)"
  unfolding contains_iff by blast

lemma import_line_source:
  "contains ((str ''from '') @ [squote] @ (str ''@/lib/services/logger'') @ [squote]) import_line"
  by code_simp

lemma import_line_names: "contains (str ''log, logError'') import_line"
  by code_simp

lemma dq_line_source:
  "contains ((str ''from '') @ [dquote] @ (str ''@/lib/services/logger'') @ [dquote])
     ((str ''import { log, logError } from '') @ [dquote] @ (str ''@/lib/services/logger'') @ [dquote] @ (str '';''))"
  by code_simp

lemma dq_line_names:
  "contains (str ''log, logError'')
     ((str ''import { log, logError } from '') @ [dquote] @ (str ''@/lib/services/logger'') @ [dquote] @ (str '';''))"
  by code_simp

lemma match_import_stmt_shape:
  assumes "match_import_stmt s = Some rest"
  shows "\<exists>x. s = (str ''import '') @ x @ (str '';'') @ rest \<and> x \<noteq> [] \<and> ch (CHR '';'') \<notin> set x"
proof -
  from assms obtain s1 x s2 where a: "lit (str ''import '') s = Some s1"
    "many1 (\<lambda>c. c \<noteq> ch (CHR '';'')) s1 = Some (x, s2)" "lit (str '';'') s2 = Some rest"
    by (auto simp: match_import_stmt_def bind_eq_Some_conv)
  from a(2) have "s1 = x @ s2" "x \<noteq> []" "\<forall>c \<in> set x. c \<noteq> ch (CHR '';'')"
    using many1_parts by blast+
  moreover from a(1) have "s = (str ''import '') @ s1" by (simp add: lit_Some_iff)
  moreover from a(3) have "s2 = (str '';'') @ rest" by (simp add: lit_Some_iff)
  ultimately show ?thesis by auto
qed

lemma search_import_split: "search_import s = Some (pre, post) \<Longrightarrow> s = pre @ post"
proof (induction s arbitrary: pre)
  case Nil
  then show ?case by simp
next
  case (Cons c cs)
  show ?case
  proof (cases "match_import_stmt (c # cs)")
    case None
    with Cons.prems obtain pre' where "search_import cs = Some (pre', post)" "pre = c # pre'"
      by auto
    with Cons.IH show ?thesis by simp
  next
    case (Some rest)
    then obtain x where "c # cs = (str ''import '') @ x @ (str '';'') @ rest"
      using match_import_stmt_shape by blast
    then have "c # cs = ((str ''import '') @ x @ (str '';'')) @ rest" by simp
    then obtain P where P: "c # cs = P @ rest" by blast
    then have "length (c # cs) - length rest = length P"
      by (metis add_diff_cancel_right' length_append)
    with P have tk: "take (length (c # cs) - length rest) (c # cs) = P"
      by (metis append_eq_conv_conj)
    from Some Cons.prems have "pre = take (length (c # cs) - length rest) (c # cs)" "post = rest"
      by auto
    with tk P show ?thesis by simp
  qed
qed

lemma insert_import_B_cases:
  "\<exists>pre post. s = pre @ post
     \<and> (insert_import_B n s = s \<or> insert_import_B n s = pre @ [newline] @ import_line @ post)"
proof (cases "search_import s")
  case None
  then have "insert_import_B n s = s" by (simp add: insert_import_B_def)
  then show ?thesis by (metis append_Nil)
next
  case (Some p)
  obtain pre post where p: "p = (pre, post)" by (cases p)
  with Some have "s = pre @ post" using search_import_split by blast
  moreover from Some p have "insert_import_B n s = s
      \<or> insert_import_B n s = pre @ [newline] @ import_line @ post"
    by (simp add: insert_import_B_def)
  ultimately show ?thesis by blast
qed

lemma add_logger_import_inserted:
  assumes "\<not> has_logger_import s"
  shows "\<exists>pre post. s = pre @ post
     \<and> (add_logger_import s = pre @ [newline] @ import_line @ post
        \<or> add_logger_import s = import_line @ [newline, newline] @ s)"
proof (cases "\<exists>l \<in> set (split_nl s). is_import_line l")
  case False
  with add_logger_import_cases [OF assms]
  have "add_logger_import s = import_line @ [newline, newline] @ s" by simp
  then show ?thesis by (metis append_Nil)
next
  case True
  with add_logger_import_cases [OF assms] obtain j where j: "j < length (split_nl s)"
    "add_logger_import s
       = join_nl (take (Suc j) (split_nl s) @ [import_line] @ drop (Suc j) (split_nl s))"
    by auto
  from j(1) have "0 < Suc j" "Suc j \<le> length (split_nl s)" by simp_all
  from join_nl_insert [OF this, of import_line] obtain pre post where
    "join_nl (split_nl s) = pre @ post"
    "join_nl (take (Suc j) (split_nl s) @ [import_line] @ drop (Suc j) (split_nl s))
       = pre @ [newline] @ import_line @ post"
    by blast
  with j(2) show ?thesis by (auto simp: join_split)
qed

lemma add_logger_import_cases_text:
  "\<exists>pre post. s = pre @ post
     \<and> (add_logger_import s = s \<or> add_logger_import s = pre @ [newline] @ import_line @ post
        \<or> add_logger_import s = import_line @ [newline, newline] @ s)"
proof (cases "has_logger_import s")
  case True
  then have "add_logger_import s = s" by (simp add: add_logger_import_def)
  then show ?thesis by (metis append_Nil)
next
  case False
  then show ?thesis using add_logger_import_inserted by blast
qed

lemma add_logger_import_has: "has_logger_import (add_logger_import s)"
proof (cases "has_logger_import s")
  case True
  then show ?thesis by (simp add: add_logger_import_def)
next
  case False
  let ?src = "(str ''from '') @ [squote] @ (str ''@/lib/services/logger'') @ [squote]"
  from add_logger_import_inserted [OF False] obtain pre post where
    "add_logger_import s = pre @ [newline] @ import_line @ post
     \<or> add_logger_import s = import_line @ [newline, newline] @ s"
    by blast
  then have "add_logger_import s = (pre @ [newline]) @ import_line @ post
     \<or> add_logger_import s = [] @ import_line @ ([newline, newline] @ s)"
    by simp
  then have "contains import_line (add_logger_import s)"
    using contains_middle by metis
  then have "contains ?src (add_logger_import s)"
    using import_line_source contains_trans by blast
  then show ?thesis by (simp add: has_logger_import_def)
qed

lemma search_import_first:
  "search_import s = Some (pre, post) \<Longrightarrow>
     \<exists>a x. pre = a @ (str ''import '') @ x @ (str '';'') \<and> x \<noteq> [] \<and> ch (CHR '';'') \<notin> set x
        \<and> (\<forall>k < length a. match_import_stmt (drop k s) = None)"
proof (induction s arbitrary: pre)
  case Nil
  then show ?case by simp
next
  case (Cons c cs)
  show ?case
  proof (cases "match_import_stmt (c # cs)")
    case (Some rest)
    then obtain x where x: "c # cs = (str ''import '') @ x @ (str '';'') @ rest" "x \<noteq> []" "ch (CHR '';'') \<notin> set x"
      using match_import_stmt_shape by blast
    from Some Cons.prems have "search_import (c # cs) = Some (pre, rest)" by auto
    then have "c # cs = pre @ rest" by (rule search_import_split)
    with x(1) have "pre = [] @ (str ''import '') @ x @ (str '';'')" by simp
    with x(2,3) show ?thesis by (intro exI [of _ "[]"] exI [of _ x]) simp
  next
    case None
    with Cons.prems obtain pre' where p: "search_import cs = Some (pre', post)" "pre = c # pre'"
      by auto
    from Cons.IH [OF p(1)] obtain a x where ax: "pre' = a @ (str ''import '') @ x @ (str '';'')"
      "x \<noteq> []" "ch (CHR '';'') \<notin> set x" "\<forall>k < length a. match_import_stmt (drop k cs) = None"
      by blast
    have "\<forall>k < length (c # a). match_import_stmt (drop k (c # cs)) = None"
    proof (intro allI impI)
      fix k assume "k < length (c # a)"
      then show "match_import_stmt (drop k (c # cs)) = None"
        using None ax(4) by (cases k) auto
    qed
    moreover from p(2) ax(1) have "pre = (c # a) @ (str ''import '') @ x @ (str '';'')" by simp
    ultimately show ?thesis using ax(2,3) by blast
  qed
qed

text \<open>
  Claim C4 fails on refactor\_logs.py: with two import statements the import line lands
  after the first one, in front of \<open>import b;\<close>, which is the last line that matches the
  import-statement pattern.
\<close>

theorem import_after_first_counterexample:
  "rewrite_B (str ''import a;\<newline>import b;\<newline>console.log('x', y);'')
     = (1, (str ''import a;\<newline>'') @ import_line @ (str ''\<newline>import b;\<newline>log.info({ msg: 'x', y });''))
   \<and> is_import_line (str ''import b;'')"
  by code_simp

text \<open>
  Claim C4, amended. When refactor-logger.py inserts the import line, it becomes the line
  right after the last line that matches the import-statement pattern, and when no line
  matches it is put in front of the text, followed by an empty line. When refactor\_logs.py
  inserts the import line, it puts a line feed and the import line right after the first
  match of \<open>import [^;]+;\<close> in the rewritten text.
\<close>

theorem import_position:
  "(\<not> has_logger_import s \<longrightarrow>
      (if \<exists>l \<in> set (split_nl s). is_import_line l
       then \<exists>j < length (split_nl s).
              is_import_line (split_nl s ! j)
              \<and> (\<forall>k. j < k \<and> k < length (split_nl s) \<longrightarrow> \<not> is_import_line (split_nl s ! k))
              \<and> add_logger_import s
                  = join_nl (take (Suc j) (split_nl s) @ [import_line] @ drop (Suc j) (split_nl s))
       else add_logger_import s = import_line @ [newline, newline] @ s))
   \<and> (insert_import_B n s \<noteq> s \<longrightarrow>
        (\<exists>pre post a x.
           search_import s = Some (pre, post) \<and> s = pre @ post
           \<and> insert_import_B n s = pre @ [newline] @ import_line @ post
           \<and> pre = a @ (str ''import '') @ x @ (str '';'') \<and> x \<noteq> [] \<and> ch (CHR '';'') \<notin> set x
           \<and> (\<forall>k < length a. match_import_stmt (drop k s) = None)))"
proof (intro conjI impI)
  assume "\<not> has_logger_import s"
  then show "if \<exists>l \<in> set (split_nl s). is_import_line l
       then \<exists>j < length (split_nl s).
              is_import_line (split_nl s ! j)
              \<and> (\<forall>k. j < k \<and> k < length (split_nl s) \<longrightarrow> \<not> is_import_line (split_nl s ! k))
              \<and> add_logger_import s
                  = join_nl (take (Suc j) (split_nl s) @ [import_line] @ drop (Suc j) (split_nl s))
       else add_logger_import s = import_line @ [newline, newline] @ s"
    by (rule add_logger_import_cases)
next
  assume a: "insert_import_B n s \<noteq> s"
  then obtain pre post where p: "search_import s = Some (pre, post)"
    "insert_import_B n s = pre @ [newline] @ import_line @ post"
    by (auto simp: insert_import_B_def split: if_splits option.splits)
  from p(1) have "s = pre @ post" by (rule search_import_split)
  moreover from search_import_first [OF p(1)] obtain a x where
    "pre = a @ (str ''import '') @ x @ (str '';'')" "x \<noteq> []" "ch (CHR '';'') \<notin> set x"
    "\<forall>k < length a. match_import_stmt (drop k s) = None"
    by blast
  ultimately show "\<exists>pre post a x.
           search_import s = Some (pre, post) \<and> s = pre @ post
           \<and> insert_import_B n s = pre @ [newline] @ import_line @ post
           \<and> pre = a @ (str ''import '') @ x @ (str '';'') \<and> x \<noteq> [] \<and> ch (CHR '';'') \<notin> set x
           \<and> (\<forall>k < length a. match_import_stmt (drop k s) = None)"
    using p by blast
qed

theorem import_position_witness:
  "\<not> has_logger_import (str ''import a;\<newline>import b;\<newline>f();'')
   \<and> add_logger_import (str ''import a;\<newline>import b;\<newline>f();'')
       = (str ''import a;\<newline>import b;\<newline>'') @ import_line @ (str ''\<newline>f();'')
   \<and> \<not> has_logger_import (str ''f();'')
   \<and> add_logger_import (str ''f();'') = import_line @ [newline, newline] @ (str ''f();'')
   \<and> insert_import_B 1 (str ''// x\<newline>import a;\<newline>import b;\<newline>f();'')
       = (str ''// x\<newline>import a;\<newline>'') @ import_line @ (str ''\<newline>import b;\<newline>f();'')
   \<and> (\<exists>pre post. search_import (str ''// x\<newline>import a;\<newline>import b;\<newline>f();'') = Some (pre, post))
   \<and> (\<exists>j < length (split_nl (str ''import a;\<newline>import b;\<newline>f();'')).
         is_import_line (split_nl (str ''import a;\<newline>import b;\<newline>f();'') ! j)
         \<and> (\<forall>k. j < k \<and> k < length (split_nl (str ''import a;\<newline>import b;\<newline>f();''))
               \<longrightarrow> \<not> is_import_line (split_nl (str ''import a;\<newline>import b;\<newline>f();'') ! k))
         \<and> add_logger_import (str ''import a;\<newline>import b;\<newline>f();'')
             = join_nl (take (Suc j) (split_nl (str ''import a;\<newline>import b;\<newline>f();'')) @ [import_line]
                 @ drop (Suc j) (split_nl (str ''import a;\<newline>import b;\<newline>f();''))))"
proof -
  let ?s = "(str ''import a;\<newline>import b;\<newline>f();'')"
  let ?t = "(str ''// x\<newline>import a;\<newline>import b;\<newline>f();'')"
  have h1: "\<not> has_logger_import ?s" by code_simp
  have h2: "(\<exists>l \<in> set (split_nl ?s). is_import_line l) = True" by code_simp
  have h3: "\<not> has_logger_import (str ''f();'')" by code_simp
  have h4: "(\<exists>l \<in> set (split_nl (str ''f();'')). is_import_line l) = False" by code_simp
  have h5: "insert_import_B 1 ?t \<noteq> ?t" by code_simp
  have v1: "add_logger_import ?s = (str ''import a;\<newline>import b;\<newline>'') @ import_line @ (str ''\<newline>f();'')"
    by code_simp
  have v2: "insert_import_B 1 ?t = (str ''// x\<newline>import a;\<newline>'') @ import_line @ (str ''\<newline>import b;\<newline>f();'')"
    by code_simp
  note a = mp [OF conjunct1 [OF import_position [of "(str ''f();'')" 1]] h3]
  from a have w1: "add_logger_import (str ''f();'') = import_line @ [newline, newline] @ (str ''f();'')"
    by (simp only: h4 if_False)
  note b = mp [OF conjunct2 [OF import_position [of ?t 1]] h5]
  from b have w2: "\<exists>pre post. search_import ?t = Some (pre, post)"
    by (elim exE conjE) (intro exI)
  note c = mp [OF conjunct1 [OF import_position [of ?s 1]] h1]
  from c have w3: "\<exists>j < length (split_nl ?s).
         is_import_line (split_nl ?s ! j)
         \<and> (\<forall>k. j < k \<and> k < length (split_nl ?s) \<longrightarrow> \<not> is_import_line (split_nl ?s ! k))
         \<and> add_logger_import ?s
             = join_nl (take (Suc j) (split_nl ?s) @ [import_line] @ drop (Suc j) (split_nl ?s))"
    by (simp only: h2 if_True)
  from h1 v1 h3 w1 v2 w2 w3 show ?thesis
    by (intro conjI)
qed

section \<open>One import at most\<close>

text \<open>
  Claim C8. Each script inserts the import line at most once: the result of the import step
  is the text itself or the text with one copy of the import line put into it, and running
  the step again on its result changes nothing. When the import line is present, with single
  or with double quotes, neither script inserts it; refactor-logger.py does not as soon as
  the import source is present in either quoting.
\<close>

theorem one_import_at_most:
  "(contains import_line s
      \<or> contains ((str ''import { log, logError } from '') @ [dquote] @ (str ''@/lib/services/logger'')
                    @ [dquote] @ (str '';'')) s
      \<longrightarrow> add_logger_import s = s \<and> insert_import_B n s = s)
   \<and> (has_logger_import s \<longrightarrow> add_logger_import s = s)
   \<and> add_logger_import (add_logger_import s) = add_logger_import s
   \<and> insert_import_B n (insert_import_B n s) = insert_import_B n s
   \<and> (\<exists>pre post. s = pre @ post
         \<and> (add_logger_import s = s \<or> add_logger_import s = pre @ [newline] @ import_line @ post
            \<or> add_logger_import s = import_line @ [newline, newline] @ s))
   \<and> (\<exists>pre post. s = pre @ post
         \<and> (insert_import_B n s = s \<or> insert_import_B n s = pre @ [newline] @ import_line @ post))"
proof (intro conjI impI)
  let ?dq = "(str ''import { log, logError } from '') @ [dquote] @ (str ''@/lib/services/logger'')
                    @ [dquote] @ (str '';'')"
  assume a: "contains import_line s \<or> contains ?dq s"
  then have "has_logger_import s"
    unfolding has_logger_import_def
    using import_line_source dq_line_source contains_trans by blast
  then show "add_logger_import s = s" by (rule add_logger_import_present)
  from a have "contains (str ''log, logError'') s"
    using import_line_names dq_line_names contains_trans by blast
  then show "insert_import_B n s = s" by (simp add: insert_import_B_def)
next
  assume "has_logger_import s"
  then show "add_logger_import s = s" by (rule add_logger_import_present)
next
  show "add_logger_import (add_logger_import s) = add_logger_import s"
    using add_logger_import_has add_logger_import_present by blast
next
  show "insert_import_B n (insert_import_B n s) = insert_import_B n s"
  proof (cases "insert_import_B n s = s")
    case True
    then show ?thesis by simp
  next
    case False
    then obtain pre post where "insert_import_B n s = (pre @ [newline]) @ import_line @ post"
      by (auto simp: insert_import_B_def split: if_splits option.splits)
    then have "contains import_line (insert_import_B n s)"
      using contains_middle by metis
    then have "contains (str ''log, logError'') (insert_import_B n s)"
      using import_line_names contains_trans by blast
    then show ?thesis by (simp add: insert_import_B_def)
  qed
next
  show "\<exists>pre post. s = pre @ post
         \<and> (add_logger_import s = s \<or> add_logger_import s = pre @ [newline] @ import_line @ post
            \<or> add_logger_import s = import_line @ [newline, newline] @ s)"
    by (rule add_logger_import_cases_text)
next
  show "\<exists>pre post. s = pre @ post
         \<and> (insert_import_B n s = s \<or> insert_import_B n s = pre @ [newline] @ import_line @ post)"
    by (rule insert_import_B_cases)
qed

theorem one_import_at_most_witness:
  "contains ((str ''import { log, logError } from '') @ [dquote] @ (str ''@/lib/services/logger'')
       @ [dquote] @ (str '';''))
     ((str ''import { log, logError } from '') @ [dquote] @ (str ''@/lib/services/logger'') @ [dquote]
        @ (str '';\<newline>import a;\<newline>console.error('x', e)''))
   \<and> add_logger_import
        ((str ''import { log, logError } from '') @ [dquote] @ (str ''@/lib/services/logger'') @ [dquote]
           @ (str '';\<newline>import a;\<newline>console.error('x', e)''))
      = (str ''import { log, logError } from '') @ [dquote] @ (str ''@/lib/services/logger'') @ [dquote]
           @ (str '';\<newline>import a;\<newline>console.error('x', e)'')
   \<and> insert_import_B 1
        ((str ''import { log, logError } from '') @ [dquote] @ (str ''@/lib/services/logger'') @ [dquote]
           @ (str '';\<newline>import a;\<newline>console.error('x', e)''))
      = (str ''import { log, logError } from '') @ [dquote] @ (str ''@/lib/services/logger'') @ [dquote]
           @ (str '';\<newline>import a;\<newline>console.error('x', e)'')
   \<and> contains import_line (import_line @ (str ''\<newline>f()''))
   \<and> add_logger_import (import_line @ (str ''\<newline>f()'')) = import_line @ (str ''\<newline>f()'')"
proof -
  let ?s = "(str ''import { log, logError } from '') @ [dquote] @ (str ''@/lib/services/logger'') @ [dquote]
        @ (str '';\<newline>import a;\<newline>console.error('x', e)'')"
  have h1: "contains ((str ''import { log, logError } from '') @ [dquote] @ (str ''@/lib/services/logger'')
       @ [dquote] @ (str '';'')) ?s"
    by code_simp
  have h2: "contains import_line (import_line @ (str ''\<newline>f()''))"
    by code_simp
  show ?thesis
    using h1 h2 one_import_at_most [of ?s 1] one_import_at_most [of "import_line @ (str ''\<newline>f()'')" 1]
    by blast
qed

section \<open>Interpolation markers\<close>

lemma match_interp_marker:
  assumes "e \<noteq> []" and "ch (CHR ''}'') \<notin> set e"
  shows "match_interp ((str ''${'') @ e @ (str ''}'') @ b) = Some ([], b)"
proof -
  have "many1 (\<lambda>c. c \<noteq> ch (CHR ''}'')) (e @ ch (CHR ''}'') # b) = Some (e, ch (CHR ''}'') # b)"
    using assms by (intro many1_split) auto
  moreover have "lit (str ''${'') ((str ''${'') @ e @ ch (CHR ''}'') # b) = Some (e @ ch (CHR ''}'') # b)"
    by (rule lit_append)
  ultimately show ?thesis
    by (simp add: match_interp_def)
qed

lemma match_interp_head: "match_interp t \<noteq> None \<Longrightarrow> \<exists>r. t = (str ''${'') @ r"
  by (auto simp: match_interp_def bind_eq_Some_conv lit_Some_iff)

lemma strip_interp_marker:
  assumes "\<not> contains (str ''${'') a" and "e \<noteq> []" and "ch (CHR ''}'') \<notin> set e"
  shows "strip_interp (a @ (str ''${'') @ e @ (str ''}'') @ b) = a @ strip_interp b"
  using assms(1)
proof (induction a)
  case Nil
  have "match_interp ((str ''${'') @ e @ (str ''}'') @ b) = Some ([], b)"
    using assms(2,3) by (rule match_interp_marker)
  moreover have "length b < length ((str ''${'') @ e @ (str ''}'') @ b)" by simp
  ultimately have "re_subn match_interp ((str ''${'') @ e @ (str ''}'') @ b)
      = ([] @ fst (re_subn match_interp b), Suc (snd (re_subn match_interp b)))"
    by (rule re_subn_match)
  then show ?case by (simp add: strip_interp_def re_sub_def)
next
  case (Cons c a)
  from Cons.prems have na: "\<not> contains (str ''${'') a" and nl: "lit (str ''${'') (c # a) = None"
    by auto
  have "match_interp (c # a @ (str ''${'') @ e @ (str ''}'') @ b) = None"
  proof (rule ccontr)
    assume "match_interp (c # a @ (str ''${'') @ e @ (str ''}'') @ b) \<noteq> None"
    then obtain r where r: "c # a @ (str ''${'') @ e @ (str ''}'') @ b = (str ''${'') @ r"
      using match_interp_head by blast
    then have c: "c = ch (CHR ''$'')" and a: "a @ (str ''${'') @ e @ (str ''}'') @ b = ch (CHR ''{'') # r" by simp_all
    then obtain a' where "a = ch (CHR ''{'') # a'" by (cases a) auto
    with c have "lit (str ''${'') (c # a) = Some a'" by simp
    with nl show False by simp
  qed
  then have "re_subn match_interp (c # a @ (str ''${'') @ e @ (str ''}'') @ b)
      = (c # fst (re_subn match_interp (a @ (str ''${'') @ e @ (str ''}'') @ b)),
         snd (re_subn match_interp (a @ (str ''${'') @ e @ (str ''}'') @ b)))"
    by (rule re_subn_skip)
  with Cons.IH [OF na] show ?case by (simp add: strip_interp_def re_sub_def)
qed

lemma match_template_call:
  assumes "\<forall>c \<in> set (w1 @ w2). is_space c" and "msg \<noteq> []" and "backtick \<notin> set msg"
  shows "match_template head (head @ w1 @ [backtick] @ msg @ [backtick] @ w2 @ (str '')'') @ rest)
         = Some (msg, rest)"
proof -
  let ?t3 = "ch (CHR '')'') # rest"
  let ?t2 = "backtick # w2 @ ?t3"
  let ?t1 = "backtick # msg @ ?t2"
  have e1: "spaces (w1 @ ?t1) = ?t1"
    using assms(1) by (intro spaces_split) auto
  have e2: "lit [backtick] ?t1 = Some (msg @ ?t2)" by simp
  have e3: "many1 (\<lambda>c. c \<noteq> backtick) (msg @ ?t2) = Some (msg, ?t2)"
    using assms(2,3) by (intro many1_split) auto
  have e4: "lit [backtick] ?t2 = Some (w2 @ ?t3)" by simp
  have e5: "spaces (w2 @ ?t3) = ?t3"
    using assms(1) by (intro spaces_split) auto
  have e6: "lit (str '')'') ?t3 = Some rest" by simp
  have "lit head (head @ w1 @ ?t1) = Some (w1 @ ?t1)" by simp
  then show ?thesis
    unfolding match_template_def using e1 e2 e3 e4 e5 e6 by simp
qed

section \<open>The other patterns and their shapes\<close>

lemma match_template_shape:
  assumes "match_template head s = Some (msg, rest)"
  shows "\<exists>w1 w2. s = head @ w1 @ [backtick] @ msg @ [backtick] @ w2 @ (str '')'') @ rest
           \<and> (\<forall>c \<in> set (w1 @ w2). is_space c) \<and> msg \<noteq> [] \<and> backtick \<notin> set msg"
proof -
  from assms obtain s1 s2 s3 s4 where
    a1: "lit head s = Some s1" and a2: "lit [backtick] (spaces s1) = Some s2"
    and a3: "many1 (\<lambda>c. c \<noteq> backtick) s2 = Some (msg, s3)" and a4: "lit [backtick] s3 = Some s4"
    and a5: "lit (str '')'') (spaces s4) = Some rest"
    unfolding match_template_def by (auto simp: bind_eq_Some_conv)
  from a1 have b1: "s = head @ s1" by (simp add: lit_Some_iff)
  from a2 obtain w1 where b2: "s1 = w1 @ [backtick] @ s2" and c2: "\<forall>x \<in> set w1. is_space x"
    using lit_spaces by blast
  from a3 have b3: "s2 = msg @ s3" and c3: "msg \<noteq> []" "\<forall>c \<in> set msg. c \<noteq> backtick"
    using many1_parts by blast+
  from a4 have b4: "s3 = [backtick] @ s4" by (simp add: lit_Some_iff)
  from a5 obtain w2 where b5: "s4 = w2 @ (str '')'') @ rest" and c5: "\<forall>x \<in> set w2. is_space x"
    using lit_spaces by blast
  have "s = head @ w1 @ [backtick] @ msg @ [backtick] @ w2 @ (str '')'') @ rest"
    by (simp add: b1 b2 b3 b4 b5)
  moreover have "\<forall>c \<in> set (w1 @ w2). is_space c" using c2 c5 by auto
  moreover have "backtick \<notin> set msg" using c3(2) by blast
  ultimately show ?thesis using c3(1) by blast
qed

lemma match_simple_call:
  assumes "\<forall>c \<in> set (w1 @ w2). is_space c" and "is_quote q1" and "is_quote q2"
    and "msg \<noteq> []" and "\<forall>c \<in> set msg. non_quote c"
  shows "match_simple head (head @ w1 @ [q1] @ msg @ [q2] @ w2 @ (str '')'') @ rest) = Some (msg, rest)"
proof -
  let ?t3 = "ch (CHR '')'') # rest"
  let ?t2 = "q2 # w2 @ ?t3"
  let ?t1 = "q1 # msg @ ?t2"
  have e1: "spaces (w1 @ ?t1) = ?t1"
    using assms(1,2) by (intro spaces_split) (auto simp: quote_not_space)
  have e2: "one is_quote ?t1 = Some (msg @ ?t2)"
    using assms(2) by (simp add: one_def)
  have e3: "many1 non_quote (msg @ ?t2) = Some (msg, ?t2)"
    using assms(3,4,5) by (intro many1_split) (auto simp: non_quote_def)
  have e4: "one is_quote ?t2 = Some (w2 @ ?t3)"
    using assms(3) by (simp add: one_def)
  have e5: "spaces (w2 @ ?t3) = ?t3"
    using assms(1) by (intro spaces_split) auto
  have e6: "lit (str '')'') ?t3 = Some rest" by simp
  have "lit head (head @ w1 @ ?t1) = Some (w1 @ ?t1)" by simp
  then show ?thesis
    unfolding match_simple_def using e1 e2 e3 e4 e5 e6 by simp
qed

lemma match_simple_shape:
  assumes "match_simple head s = Some (msg, rest)"
  shows "\<exists>w1 q1 q2 w2. s = head @ w1 @ [q1] @ msg @ [q2] @ w2 @ (str '')'') @ rest
           \<and> (\<forall>c \<in> set (w1 @ w2). is_space c) \<and> is_quote q1 \<and> is_quote q2
           \<and> msg \<noteq> [] \<and> (\<forall>c \<in> set msg. non_quote c)"
proof -
  from assms obtain s1 s2 s3 s4 where
    a1: "lit head s = Some s1" and a2: "one is_quote (spaces s1) = Some s2"
    and a3: "many1 non_quote s2 = Some (msg, s3)" and a4: "one is_quote s3 = Some s4"
    and a5: "lit (str '')'') (spaces s4) = Some rest"
    unfolding match_simple_def by (auto simp: bind_eq_Some_conv)
  from a1 have b1: "s = head @ s1" by (simp add: lit_Some_iff)
  from a2 obtain w1 q1 where b2: "s1 = w1 @ q1 # s2" and c2: "\<forall>x \<in> set w1. is_space x" "is_quote q1"
    using one_spaces by blast
  from a3 have b3: "s2 = msg @ s3" and c3: "msg \<noteq> []" "\<forall>c \<in> set msg. non_quote c"
    using many1_parts by blast+
  from a4 obtain q2 where b4: "s3 = q2 # s4" and c4: "is_quote q2"
    by (auto simp: one_Some_iff)
  from a5 obtain w2 where b5: "s4 = w2 @ (str '')'') @ rest" and c5: "\<forall>x \<in> set w2. is_space x"
    using lit_spaces by blast
  have "s = head @ w1 @ [q1] @ msg @ [q2] @ w2 @ (str '')'') @ rest"
    by (simp add: b1 b2 b3 b4 b5)
  moreover have "\<forall>c \<in> set (w1 @ w2). is_space c" using c2(1) c5 by auto
  ultimately show ?thesis using c2(2) c3 c4 by blast
qed

lemma match_interp_shape:
  assumes "match_interp s = Some (r, rest)"
  shows "r = [] \<and> (\<exists>e. s = (str ''${'') @ e @ (str ''}'') @ rest \<and> e \<noteq> [] \<and> ch (CHR ''}'') \<notin> set e)"
proof -
  from assms obtain s1 e s2 where a: "lit (str ''${'') s = Some s1"
    "many1 (\<lambda>c. c \<noteq> ch (CHR ''}'')) s1 = Some (e, s2)" "lit (str ''}'') s2 = Some rest" and r: "r = []"
    by (auto simp: match_interp_def bind_eq_Some_conv)
  from a(2) have "s1 = e @ s2" "e \<noteq> []" "\<forall>c \<in> set e. c \<noteq> ch (CHR ''}'')"
    using many1_parts by blast+
  moreover from a(1) have "s = (str ''${'') @ s1" by (simp add: lit_Some_iff)
  moreover from a(3) have "s2 = (str ''}'') @ rest" by (simp add: lit_Some_iff)
  ultimately show ?thesis using r by auto
qed

lemma match_import_stmt_call:
  assumes "x \<noteq> []" and "ch (CHR '';'') \<notin> set x"
  shows "match_import_stmt ((str ''import '') @ x @ (str '';'') @ rest) = Some rest"
proof -
  have "many1 (\<lambda>c. c \<noteq> ch (CHR '';'')) (x @ ch (CHR '';'') # rest) = Some (x, ch (CHR '';'') # rest)"
    using assms by (intro many1_split) auto
  moreover have "lit (str ''import '') ((str ''import '') @ x @ ch (CHR '';'') # rest) = Some (x @ ch (CHR '';'') # rest)"
    by (rule lit_append)
  ultimately show ?thesis by (simp add: match_import_stmt_def)
qed

lemma match_sq_data_call:
  assumes "squote \<notin> set msg" and "\<forall>c \<in> set w. is_space c"
    and "ch (CHR '')'') \<notin> set d" and "d = [] \<or> \<not> is_space (hd d)"
  shows "match_sq_data head (head @ [squote] @ msg @ [squote] @ (str '','') @ w @ d @ (str '');'') @ rest)
         = Some (msg, d, rest)"
proof -
  let ?t3 = "ch (CHR '')'') # ch (CHR '';'') # rest"
  let ?t2 = "d @ ?t3"
  let ?t1 = "squote # ch (CHR '','') # w @ ?t2"
  have e1: "many (\<lambda>c. c \<noteq> squote) (msg @ ?t1) = (msg, ?t1)"
    using assms(1) by (intro many_split) auto
  have e2: "lit (squote # (str '','')) ?t1 = Some (w @ ?t2)" by simp
  have "\<not> is_space (hd ?t2)" using assms(4) by (cases d) auto
  then have e3: "spaces (w @ ?t2) = ?t2"
    using assms(2) by (intro spaces_split) auto
  have e4: "many (\<lambda>c. c \<noteq> ch (CHR '')'')) ?t2 = (d, ?t3)"
    using assms(3) by (intro many_split) auto
  have e5: "lit (str '');'') ?t3 = Some rest" by simp
  have "lit (head @ [squote]) ((head @ [squote]) @ msg @ ?t1) = Some (msg @ ?t1)"
    by (rule lit_append)
  then have "lit (head @ [squote]) (head @ squote # msg @ ?t1) = Some (msg @ ?t1)"
    by simp
  then show ?thesis
    unfolding match_sq_data_def using e1 e2 e3 e4 e5 by simp
qed

lemma match_sq_data_shape:
  assumes "match_sq_data head s = Some (msg, d, rest)"
  shows "\<exists>w. s = head @ [squote] @ msg @ [squote] @ (str '','') @ w @ d @ (str '');'') @ rest
           \<and> squote \<notin> set msg \<and> (\<forall>c \<in> set w. is_space c) \<and> ch (CHR '')'') \<notin> set d"
proof -
  from assms obtain s1 s3 where
    a1: "lit (head @ [squote]) s = Some s1"
    and m: "msg = takeWhile (\<lambda>c. c \<noteq> squote) s1"
    and a3: "lit (squote # (str '','')) (dropWhile (\<lambda>c. c \<noteq> squote) s1) = Some s3"
    and d: "d = takeWhile (\<lambda>c. c \<noteq> ch (CHR '')'')) (spaces s3)"
    and a5: "lit (str '');'') (dropWhile (\<lambda>c. c \<noteq> ch (CHR '')'')) (spaces s3)) = Some rest"
    unfolding match_sq_data_def many_def by (auto simp: bind_eq_Some_conv)
  define s2 where "s2 = dropWhile (\<lambda>c. c \<noteq> squote) s1"
  define s4 where "s4 = dropWhile (\<lambda>c. c \<noteq> ch (CHR '')'')) (spaces s3)"
  have a2: "many (\<lambda>c. c \<noteq> squote) s1 = (msg, s2)"
    by (simp add: many_def m s2_def)
  have a4: "many (\<lambda>c. c \<noteq> ch (CHR '')'')) (spaces s3) = (d, s4)"
    by (simp add: many_def d s4_def)
  note a3 = a3 [folded s2_def] and a5 = a5 [folded s4_def]
  from a1 have b1: "s = head @ [squote] @ s1" by (simp add: lit_Some_iff)
  from a2 have b2: "s1 = msg @ s2" and c2: "\<forall>c \<in> set msg. c \<noteq> squote"
    using many_parts by blast+
  from a3 have b3: "s2 = squote # (str '','') @ s3" by (simp add: lit_Some_iff)
  from a4 obtain w where b4: "s3 = w @ d @ s4"
    and c4: "\<forall>x \<in> set w. is_space x" "\<forall>c \<in> set d. c \<noteq> ch (CHR '')'')"
    using many_spaces by blast
  from a5 have b5: "s4 = (str '');'') @ rest" by (simp add: lit_Some_iff)
  have "s = head @ [squote] @ msg @ [squote] @ (str '','') @ w @ d @ (str '');'') @ rest"
    by (simp add: b1 b2 b3 b4 b5)
  moreover have "squote \<notin> set msg" using c2 by blast
  moreover have "ch (CHR '')'') \<notin> set d" using c4(2) by blast
  ultimately show ?thesis using c4(1) by blast
qed

lemma icons_classes [simp]:
  "\<not> is_upper_us 125" "\<not> is_space 59"
  by (simp_all add: is_upper_us_def is_space_def)

lemma match_icons_prefix:
  assumes "name \<noteq> []" and "\<forall>c \<in> set name. is_upper_us c" and "\<forall>c \<in> set w. is_space c"
    and "backtick \<notin> set msg" and "msg = [] \<or> \<not> is_space (hd msg)"
  shows "match_icons head (head @ [backtick] @ (str ''${ICONS.'') @ name @ (str ''}'') @ w @ msg @ [backtick] @ tail)
         = (case do {
                   s6 \<leftarrow> lit (str '','') tail;
                   (data, s7) \<leftarrow> Some (many (\<lambda>c. c \<noteq> ch (CHR '')'')) (spaces s6));
                   s8 \<leftarrow> lit (str '');'') s7;
                   Some (data, s8)
                 } of
              Some (data, s8) \<Rightarrow> Some (msg, Some data, s8)
            | None \<Rightarrow> do {
                s6 \<leftarrow> lit (str '');'') tail;
                Some (msg, None, s6)
              })"
proof -
  let ?t3 = "backtick # tail"
  let ?t2 = "msg @ ?t3"
  let ?t1 = "ch (CHR ''}'') # w @ ?t2"
  let ?t0 = "name @ ?t1"
  have e0: "lit (head @ [backtick] @ (str ''${ICONS.'')) ((head @ [backtick] @ (str ''${ICONS.'')) @ ?t0) = Some ?t0"
    by (rule lit_append)
  have e1: "many1 is_upper_us ?t0 = Some (name, ?t1)"
    using assms(1,2) by (intro many1_split) auto
  have e2: "lit (str ''}'') ?t1 = Some (w @ ?t2)" by simp
  have "\<not> is_space (hd ?t2)" using assms(5) by (cases msg) auto
  then have e3: "spaces (w @ ?t2) = ?t2"
    using assms(3) by (intro spaces_split) auto
  have e4: "many (\<lambda>c. c \<noteq> backtick) ?t2 = (msg, ?t3)"
    using assms(4) by (intro many_split) auto
  have e5: "lit [backtick] ?t3 = Some tail" by simp
  from e0 have e0': "lit (head @ [backtick] @ (str ''${ICONS.''))
      (head @ [backtick] @ (str ''${ICONS.'') @ name @ (str ''}'') @ w @ msg @ [backtick] @ tail) = Some ?t0"
    by simp
  show ?thesis
    unfolding match_icons_def using e0' e1 e2 e3 e4 e5 by simp
qed

lemma match_icons_call_plain:
  assumes "name \<noteq> []" and "\<forall>c \<in> set name. is_upper_us c" and "\<forall>c \<in> set w. is_space c"
    and "backtick \<notin> set msg" and "msg = [] \<or> \<not> is_space (hd msg)"
  shows "match_icons head
           (head @ [backtick] @ (str ''${ICONS.'') @ name @ (str ''}'') @ w @ msg @ [backtick] @ (str '');'') @ rest)
         = Some (msg, None, rest)"
  using match_icons_prefix [OF assms, of head "(str '');'') @ rest"] by simp

lemma match_icons_call_data:
  assumes "name \<noteq> []" and "\<forall>c \<in> set name. is_upper_us c" and "\<forall>c \<in> set w. is_space c"
    and "backtick \<notin> set msg" and "msg = [] \<or> \<not> is_space (hd msg)"
    and "\<forall>c \<in> set w'. is_space c" and "ch (CHR '')'') \<notin> set d" and "d = [] \<or> \<not> is_space (hd d)"
  shows "match_icons head
           (head @ [backtick] @ (str ''${ICONS.'') @ name @ (str ''}'') @ w @ msg @ [backtick] @ (str '','')
              @ w' @ d @ (str '');'') @ rest)
         = Some (msg, Some d, rest)"
proof -
  let ?t3 = "ch (CHR '')'') # ch (CHR '';'') # rest"
  let ?t2 = "d @ ?t3"
  have "\<not> is_space (hd ?t2)" using assms(8) by (cases d) auto
  then have e1: "spaces (w' @ ?t2) = ?t2"
    using assms(6) by (intro spaces_split) auto
  have e2: "many (\<lambda>c. c \<noteq> ch (CHR '')'')) ?t2 = (d, ?t3)"
    using assms(7) by (intro many_split) auto
  have e3: "lit (str '');'') ?t3 = Some rest" by simp
  show ?thesis
    using match_icons_prefix [OF assms(1-5), of head "(str '','') @ w' @ d @ (str '');'') @ rest"] e1 e2 e3
    by simp
qed

lemma match_icons_shape:
  assumes "match_icons head s = Some (msg, g, rest)"
  shows "\<exists>name w tail.
           s = head @ [backtick] @ (str ''${ICONS.'') @ name @ (str ''}'') @ w @ msg @ [backtick] @ tail
           \<and> name \<noteq> [] \<and> (\<forall>c \<in> set name. is_upper_us c) \<and> (\<forall>c \<in> set w. is_space c)
           \<and> backtick \<notin> set msg
           \<and> ((g = None \<and> tail = (str '');'') @ rest)
              \<or> (\<exists>w' d. g = Some d \<and> tail = (str '','') @ w' @ d @ (str '');'') @ rest
                    \<and> (\<forall>c \<in> set w'. is_space c) \<and> ch (CHR '')'') \<notin> set d))"
proof -
  let ?opt = "\<lambda>s5. do {
                   s6 \<leftarrow> lit (str '','') s5;
                   (data, s7) \<leftarrow> Some (many (\<lambda>c. c \<noteq> ch (CHR '')'')) (spaces s6));
                   s8 \<leftarrow> lit (str '');'') s7;
                   Some (data, s8)
                 }"
  from assms obtain s1 name s2 s3 s5 where
    a1: "lit (head @ [backtick] @ (str ''${ICONS.'')) s = Some s1"
    and a2: "many1 is_upper_us s1 = Some (name, s2)"
    and a3: "lit (str ''}'') s2 = Some s3"
    and m: "msg = takeWhile (\<lambda>c. c \<noteq> backtick) (spaces s3)"
    and a5: "lit [backtick] (dropWhile (\<lambda>c. c \<noteq> backtick) (spaces s3)) = Some s5"
    and r: "(case ?opt s5 of
               Some (data, s8) \<Rightarrow> Some (msg, Some data, s8)
             | None \<Rightarrow> (lit (str '');'') s5 \<bind> (\<lambda>s6. Some (msg, None, s6))))
            = Some (msg, g, rest)"
    unfolding match_icons_def many_def
    by (auto simp: bind_eq_Some_conv split: option.splits)
  from a1 have b1: "s = head @ [backtick] @ (str ''${ICONS.'') @ s1" by (simp add: lit_Some_iff)
  from a2 have b2: "s1 = name @ s2" and c2: "name \<noteq> []" "\<forall>c \<in> set name. is_upper_us c"
    using many1_parts by blast+
  from a3 have b3: "s2 = (str ''}'') @ s3" by (simp add: lit_Some_iff)
  have "many (\<lambda>c. c \<noteq> backtick) (spaces s3)
      = (msg, dropWhile (\<lambda>c. c \<noteq> backtick) (spaces s3))"
    by (simp add: many_def m)
  then obtain w where b4: "s3 = w @ msg @ dropWhile (\<lambda>c. c \<noteq> backtick) (spaces s3)"
    and c4: "\<forall>x \<in> set w. is_space x" "\<forall>c \<in> set msg. c \<noteq> backtick"
    using many_spaces by blast
  from a5 have b5: "dropWhile (\<lambda>c. c \<noteq> backtick) (spaces s3) = [backtick] @ s5"
    by (simp add: lit_Some_iff)
  have shape: "s = head @ [backtick] @ (str ''${ICONS.'') @ name @ (str ''}'') @ w @ msg @ [backtick] @ s5"
    using b1 b2 b3 b4 b5 by simp
  have nb: "backtick \<notin> set msg" using c4(2) by blast
  have tail: "(g = None \<and> s5 = (str '');'') @ rest)
      \<or> (\<exists>w' d. g = Some d \<and> s5 = (str '','') @ w' @ d @ (str '');'') @ rest
            \<and> (\<forall>c \<in> set w'. is_space c) \<and> ch (CHR '')'') \<notin> set d)"
  proof (cases "?opt s5")
    case None
    with r have "lit (str '');'') s5 = Some rest" "g = None"
      by (auto simp: bind_eq_Some_conv)
    then show ?thesis by (simp add: lit_Some_iff)
  next
    case (Some p)
    obtain d s8 where p: "p = (d, s8)" by (cases p)
    with Some r have g: "g = Some d" "s8 = rest" by auto
    from Some p obtain s6 where o1: "lit (str '','') s5 = Some s6"
      and o2: "d = takeWhile (\<lambda>c. c \<noteq> ch (CHR '')'')) (spaces s6)"
      and o3: "lit (str '');'') (dropWhile (\<lambda>c. c \<noteq> ch (CHR '')'')) (spaces s6)) = Some s8"
      unfolding many_def by (auto simp: bind_eq_Some_conv)
    have "many (\<lambda>c. c \<noteq> ch (CHR '')'')) (spaces s6)
        = (d, dropWhile (\<lambda>c. c \<noteq> ch (CHR '')'')) (spaces s6))"
      by (simp add: many_def o2)
    then obtain w' where q1: "s6 = w' @ d @ dropWhile (\<lambda>c. c \<noteq> ch (CHR '')'')) (spaces s6)"
      and q2: "\<forall>x \<in> set w'. is_space x" "\<forall>c \<in> set d. c \<noteq> ch (CHR '')'')"
      using many_spaces by blast
    from o3 have q3: "dropWhile (\<lambda>c. c \<noteq> ch (CHR '')'')) (spaces s6) = (str '');'') @ s8"
      by (simp add: lit_Some_iff)
    from o1 have "s5 = (str '','') @ s6" by (simp add: lit_Some_iff)
    with q1 q3 g(2) have "s5 = (str '','') @ w' @ d @ (str '');'') @ rest" by simp
    moreover have "ch (CHR '')'') \<notin> set d" using q2(2) by blast
    ultimately show ?thesis using g(1) q2(1) by blast
  qed
  from shape c2 c4(1) nb tail show ?thesis by blast
qed

section \<open>Every match consumes text\<close>

lemma pat_str_var_progress:
  assumes "pat_str_var head t = Some (r, rest)"
  shows "length rest < length t"
proof -
  from assms obtain msg v where "match_str_var head t = Some (msg, v, rest)"
    by (auto simp: pat_str_var_def)
  then obtain p where "t = head @ p @ (str '')'') @ rest"
    using match_str_var_shape [of head t msg v rest] by (metis append.assoc)
  then show ?thesis by simp
qed

lemma pat_template_progress:
  assumes "pat_template head level t = Some (r, rest)"
  shows "length rest < length t"
proof -
  from assms obtain msg where "match_template head t = Some (msg, rest)"
    by (auto simp: pat_template_def)
  then obtain p where "t = head @ p @ (str '')'') @ rest"
    using match_template_shape [of head t msg rest] by (metis append.assoc)
  then show ?thesis by simp
qed

lemma pat_simple_progress:
  assumes "pat_simple head level t = Some (r, rest)"
  shows "length rest < length t"
proof -
  from assms obtain msg where "match_simple head t = Some (msg, rest)"
    by (auto simp: pat_simple_def)
  then obtain p where "t = head @ p @ (str '')'') @ rest"
    using match_simple_shape [of head t msg rest] by (metis append.assoc)
  then show ?thesis by simp
qed

lemma match_icons_progress:
  assumes "match_icons head t = Some (msg, g, rest)"
  shows "length rest < length t"
proof -
  from match_icons_shape [OF assms] obtain p tail where
    "t = p @ tail" "tail = (str '');'') @ rest \<or> (\<exists>q. tail = q @ (str '');'') @ rest)"
    by (metis append.assoc)
  then show ?thesis by auto
qed

lemma match_sq_data_progress:
  assumes "match_sq_data head t = Some (msg, d, rest)"
  shows "length rest < length t"
proof -
  from match_sq_data_shape [OF assms] obtain p where "t = p @ (str '');'') @ rest"
    by (metis append.assoc)
  then show ?thesis by simp
qed

lemma match_interp_progress:
  assumes "match_interp t = Some (r, rest)"
  shows "length rest < length t"
  using match_interp_shape [OF assms] by auto

lemma patterns_progress:
  assumes "m \<in> set patterns_A \<union> set patterns_B \<union> {match_console, match_interp}"
    and "m t = Some (r, rest)"
  shows "length rest < length t"
proof -
  from assms(1) consider
    (sv) head where "m = pat_str_var head"
    | (tp) head level where "m = pat_template head level"
    | (si) head level where "m = pat_simple head level"
    | (b) "m \<in> {pattern1, pattern2, pattern3, pattern4, pattern5}"
    | (c) "m = match_console" | (i) "m = match_interp"
    unfolding patterns_A_def patterns_B_def by auto
  then show ?thesis
  proof cases
    case sv
    with assms(2) show ?thesis using pat_str_var_progress by blast
  next
    case tp
    with assms(2) show ?thesis using pat_template_progress by blast
  next
    case si
    with assms(2) show ?thesis using pat_simple_progress by blast
  next
    case b
    with assms(2) show ?thesis
      unfolding pattern1_def pattern2_def pattern3_def pattern4_def pattern5_def
      using match_icons_progress match_sq_data_progress by fastforce
  next
    case c
    with assms(2) show ?thesis using match_console_progress by blast
  next
    case i
    with assms(2) show ?thesis using match_interp_progress by blast
  qed
qed

section \<open>Texts without a recognized call\<close>




section \<open>A text with one call\<close>

text \<open>
  The patterns of refactor-logger.py all start with \<open>console.\<close>. In a text that holds
  this key once, at the head of one call, a pass copies what stands before the call, rewrites
  the call or copies it, and copies what stands after it.
\<close>

lemma lit_sep:
  "d \<notin> set p \<Longrightarrow> lit p (x @ d # y) = Some r \<Longrightarrow> lit p x \<noteq> None"
proof (induction p x arbitrary: r rule: lit.induct)
  case (1 s)
  then show ?case by simp
next
  case (2 p ps)
  then show ?case by (auto split: if_splits)
next
  case (3 p ps c cs)
  then show ?case by (auto split: if_splits)
qed

lemma lit_before:
  assumes "u \<noteq> []" and "rest = [] \<or> hd rest \<notin> set (tl k)" and "lit k (u @ rest) \<noteq> None"
  shows "lit k u \<noteq> None"
proof (cases k)
  case Nil
  then show ?thesis by simp
next
  case (Cons c0 ks)
  obtain c u' where u: "u = c # u'" using assms(1) by (cases u) auto
  show ?thesis
  proof (cases rest)
    case Nil
    with assms(3) show ?thesis by simp
  next
    case (Cons d y)
    with assms(2) \<open>k = c0 # ks\<close> have d: "d \<notin> set ks" by simp
    from assms(3) u Cons \<open>k = c0 # ks\<close> obtain r where "c0 = c" "lit ks (u' @ d # y) = Some r"
      by (auto split: if_splits)
    then have "lit ks u' \<noteq> None" using d lit_sep by blast
    with \<open>c0 = c\<close> u \<open>k = c0 # ks\<close> show ?thesis by simp
  qed
qed

lemma contains_appendI: "contains k a \<or> contains k b \<Longrightarrow> contains k (a @ b)"
proof -
  assume "contains k a \<or> contains k b"
  then show ?thesis
  proof
    assume "contains k a"
    then obtain p q where "a = p @ k @ q" by (auto simp: contains_iff)
    then have "a @ b = p @ k @ (q @ b)" by simp
    then show ?thesis unfolding contains_iff by blast
  next
    assume "contains k b"
    then obtain p q where "b = p @ k @ q" by (auto simp: contains_iff)
    then have "a @ b = (a @ p) @ k @ q" by simp
    then show ?thesis unfolding contains_iff by blast
  qed
qed

lemma free_appendD:
  "\<not> contains k (a @ b) \<Longrightarrow> \<not> contains k a \<and> \<not> contains k b"
  using contains_appendI by blast

lemma free_sep:
  assumes "d \<notin> set k" and "k \<noteq> []" and "\<not> contains k x" and "\<not> contains k y"
  shows "\<not> contains k (x @ d # y)"
  using assms(3)
proof (induction x)
  case Nil
  from assms(1,2) have "lit k (d # y) = None" by (cases k) auto
  with assms(4) show ?case by simp
next
  case (Cons c x)
  then have nx: "\<not> contains k x" and nl: "lit k (c # x) = None" by auto
  have "lit k ((c # x) @ d # y) = None"
  proof (rule ccontr)
    assume "lit k ((c # x) @ d # y) \<noteq> None"
    then obtain r where "lit k ((c # x) @ d # y) = Some r" by auto
    then have "lit k (c # x) \<noteq> None" using assms(1) lit_sep by blast
    with nl show False by simp
  qed
  with Cons.IH [OF nx] show ?case by simp
qed

lemma free_snoc:
  assumes "k \<noteq> []" and "last k \<noteq> c" and "\<not> contains k x"
  shows "\<not> contains k (x @ [c])"
proof
  assume "contains k (x @ [c])"
  then obtain a b where ab: "x @ [c] = a @ k @ b" by (auto simp: contains_iff)
  show False
  proof (cases b rule: rev_cases)
    case Nil
    with ab have "x @ [c] = (a @ butlast k) @ [last k]" using assms(1) by simp
    then have "c = last k" by (simp only: append1_eq_conv)
    with assms(2) show False by simp
  next
    case (snoc b' z)
    with ab have "x @ [c] = (a @ k @ b') @ [z]" by simp
    then have "x = a @ k @ b'" by (simp only: append1_eq_conv)
    with assms(3) show False by (auto simp: contains_iff)
  qed
qed

lemma free_without:
  assumes "c0 \<in> set k" and "c0 \<notin> set x"
  shows "\<not> contains k x"
proof
  assume "contains k x"
  then obtain a b where "x = a @ k @ b" by (auto simp: contains_iff)
  with assms show False by auto
qed

lemma skip_prefix:
  assumes key: "\<And>t. m t \<noteq> None \<Longrightarrow> lit k t \<noteq> None"
    and "\<not> contains k pre" and "rest = [] \<or> hd rest \<notin> set (tl k)"
  shows "re_subn m (pre @ rest) = (pre @ fst (re_subn m rest), snd (re_subn m rest))"
  using assms(2)
proof (induction pre)
  case Nil
  then show ?case by simp
next
  case (Cons c p)
  then have np: "\<not> contains k p" and nl: "lit k (c # p) = None" by auto
  have "m ((c # p) @ rest) = None"
  proof (rule ccontr)
    assume "m ((c # p) @ rest) \<noteq> None"
    then have "lit k ((c # p) @ rest) \<noteq> None" by (rule key)
    then have "lit k (c # p) \<noteq> None"
      using lit_before [of "c # p" rest k] assms(3) by simp
    with nl show False by simp
  qed
  then have "re_subn m (c # p @ rest)
      = (c # fst (re_subn m (p @ rest)), snd (re_subn m (p @ rest)))"
    using re_subn_skip [of m c "p @ rest"] by simp
  with Cons.IH [OF np] show ?case by simp
qed

lemma pass_free:
  assumes key: "\<And>t. m t \<noteq> None \<Longrightarrow> lit k t \<noteq> None" and "\<not> contains k t"
  shows "re_subn m t = (t, 0)"
proof -
  have "\<not> occurs m t" using occurs_key [of m k t] key assms(2) by blast
  then show ?thesis by (rule re_subn_no_occurs)
qed

lemma pass_call_none:
  assumes key: "\<And>t. m t \<noteq> None \<Longrightarrow> lit k t \<noteq> None"
    and "\<not> contains k pre" and "C \<noteq> []" and "hd C \<notin> set (tl k)"
    and "m (C @ post) = None" and "\<not> contains k (tl C @ post)"
  shows "re_subn m (pre @ C @ post) = (pre @ C @ post, 0)"
proof -
  obtain c C' where C: "C = c # C'" using assms(3) by (cases C) auto
  have "re_subn m (C' @ post) = (C' @ post, 0)"
    using pass_free [of m k "C' @ post"] key assms(6) C by simp
  moreover have "re_subn m (c # C' @ post)
      = (c # fst (re_subn m (C' @ post)), snd (re_subn m (C' @ post)))"
    using assms(5) C re_subn_skip [of m c "C' @ post"] by simp
  ultimately have "re_subn m (C @ post) = (C @ post, 0)" using C by simp
  moreover have "re_subn m (pre @ C @ post)
      = (pre @ fst (re_subn m (C @ post)), snd (re_subn m (C @ post)))"
    using skip_prefix [of m k pre "C @ post"] key assms(2,3,4) by simp
  ultimately show ?thesis by simp
qed

lemma pass_call_some:
  assumes key: "\<And>t. m t \<noteq> None \<Longrightarrow> lit k t \<noteq> None"
    and "\<not> contains k pre" and "C \<noteq> []" and "hd C \<notin> set (tl k)"
    and "m (C @ post) = Some (E, post)" and "\<not> contains k post"
  shows "re_subn m (pre @ C @ post) = (pre @ E @ post, 1)"
proof -
  have "re_subn m post = (post, 0)"
    using pass_free [of m k post] key assms(6) by simp
  moreover have "length post < length (C @ post)" using assms(3) by simp
  ultimately have "re_subn m (C @ post) = (E @ post, 1)"
    using re_subn_match [of m "C @ post" E post] assms(5) by simp
  moreover have "re_subn m (pre @ C @ post)
      = (pre @ fst (re_subn m (C @ post)), snd (re_subn m (C @ post)))"
    using skip_prefix [of m k pre "C @ post"] key assms(2,3,4) by simp
  ultimately show ?thesis by simp
qed

text \<open>A run of passes, each on the output of the one before.\<close>

lemma passes_free:
  assumes "\<forall>m \<in> set ps. \<forall>t. m t \<noteq> None \<longrightarrow> lit k t \<noteq> None" and "\<not> contains k t"
  shows "foldl (\<lambda>t m. re_sub m t) t ps = t"
  using assms(1)
proof (induction ps)
  case Nil
  then show ?case by simp
next
  case (Cons m ps)
  then have "re_subn m t = (t, 0)" using pass_free [of m k t] assms(2) by simp
  with Cons show ?case by (simp add: re_sub_def)
qed

lemma passes_call_none:
  assumes "\<forall>m \<in> set ps. \<forall>t. m t \<noteq> None \<longrightarrow> lit k t \<noteq> None"
    and "\<not> contains k pre" and "C \<noteq> []" and "hd C \<notin> set (tl k)"
    and "\<not> contains k (tl C @ post)"
    and "\<forall>m \<in> set ps. m (C @ post) = None"
  shows "foldl (\<lambda>t m. re_sub m t) (pre @ C @ post) ps = pre @ C @ post"
  using assms(1,6)
proof (induction ps)
  case Nil
  then show ?case by simp
next
  case (Cons m ps)
  then have "re_subn m (pre @ C @ post) = (pre @ C @ post, 0)"
    using pass_call_none [of m k pre C post] assms(2,3,4,5) by simp
  with Cons show ?case by (simp add: re_sub_def)
qed

lemma passes_call:
  assumes "\<forall>m \<in> set ps. \<forall>t. m t \<noteq> None \<longrightarrow> lit k t \<noteq> None"
    and "\<not> contains k pre" and "C \<noteq> []" and "hd C \<notin> set (tl k)"
    and "\<not> contains k (tl C @ post)" and "\<not> contains k (pre @ E @ post)"
    and "i < length ps" and "(ps ! i) (C @ post) = Some (E, post)"
    and "\<forall>j < i. (ps ! j) (C @ post) = None"
  shows "foldl (\<lambda>t m. re_sub m t) (pre @ C @ post) ps = pre @ E @ post"
  using assms(1,7,8,9)
proof (induction ps arbitrary: i)
  case Nil
  then show ?case by simp
next
  case (Cons m ps)
  have np: "\<not> contains k post" using assms(5) free_appendD by blast
  show ?case
  proof (cases i)
    case 0
    with Cons.prems have "m (C @ post) = Some (E, post)" by simp
    then have "re_subn m (pre @ C @ post) = (pre @ E @ post, 1)"
      using pass_call_some [of m k pre C post E] Cons.prems(1) assms(2,3,4) np by simp
    moreover have "foldl (\<lambda>t m. re_sub m t) (pre @ E @ post) ps = pre @ E @ post"
      using passes_free [of ps k "pre @ E @ post"] Cons.prems(1) assms(6) by simp
    ultimately show ?thesis by (simp add: re_sub_def)
  next
    case (Suc i')
    with Cons.prems have "m (C @ post) = None" by auto
    then have "re_subn m (pre @ C @ post) = (pre @ C @ post, 0)"
      using pass_call_none [of m k pre C post] Cons.prems(1) assms(2,3,4,5) by simp
    moreover have "foldl (\<lambda>t m. re_sub m t) (pre @ C @ post) ps = pre @ E @ post"
    proof (rule Cons.IH [of i'])
      show "\<forall>m \<in> set ps. \<forall>t. m t \<noteq> None \<longrightarrow> lit k t \<noteq> None" using Cons.prems(1) by simp
      show "i' < length ps" using Cons.prems(2) Suc by simp
      show "(ps ! i') (C @ post) = Some (E, post)" using Cons.prems(3) Suc by simp
      show "\<forall>j < i'. (ps ! j) (C @ post) = None"
      proof (intro allI impI)
        fix j assume "j < i'"
        then have "Suc j < i" using Suc by simp
        with Cons.prems(4) have "((m # ps) ! Suc j) (C @ post) = None" by blast
        then show "(ps ! j) (C @ post) = None" by simp
      qed
    qed
    ultimately show ?thesis by (simp add: re_sub_def)
  qed
qed

lemma passes_A_foldl: "passes_A s = foldl (\<lambda>t m. re_sub m t) s patterns_A"
  by (simp add: passes_A_def refactor_console_error_def refactor_console_warn_def
      refactor_console_log_def patterns_A_def Let_def del: str_Cons str_Nil)

lemma refactor_console_error_foldl:
  "refactor_console_error s = foldl (\<lambda>t m. re_sub m t) s (take 3 patterns_A)"
  by (simp add: refactor_console_error_def patterns_A_def Let_def del: str_Cons str_Nil)

lemma refactor_console_warn_foldl:
  "refactor_console_warn s = foldl (\<lambda>t m. re_sub m t) s (take 3 (drop 3 patterns_A))"
  by (simp add: refactor_console_warn_def patterns_A_def Let_def del: str_Cons str_Nil)

lemma refactor_console_log_foldl:
  "refactor_console_log s = foldl (\<lambda>t m. re_sub m t) s (drop 6 patterns_A)"
  by (simp add: refactor_console_log_def patterns_A_def Let_def del: str_Cons str_Nil)

lemma key_chars: "set (str ''console.'') = {99, 111, 110, 115, 108, 101, 46}"
  by auto

lemma space_not_key: "is_space c \<Longrightarrow> c \<notin> set (str ''console.'')"
  by (auto simp: is_space_def split: if_splits)

lemma word_not_dot: "is_word c \<Longrightarrow> c \<noteq> 46"
  by (auto simp: is_word_def split: if_splits)

lemma space_not_dot: "is_space c \<Longrightarrow> c \<noteq> 46"
  by (auto simp: is_space_def split: if_splits)

lemma quote_not_key: "is_quote c \<Longrightarrow> c \<notin> set (str ''console.'')"
  by (auto simp: is_quote_def squote_def dquote_def backtick_def)

lemma free_no_dot: "46 \<notin> set x \<Longrightarrow> \<not> contains (str ''console.'') x"
  by (rule free_without [of 46]) simp_all

lemma free_spaces: "\<forall>c \<in> set w. is_space c \<Longrightarrow> \<not> contains (str ''console.'') w"
  using space_not_dot by (intro free_no_dot) blast

lemma free_words: "\<forall>c \<in> set v. is_word c \<Longrightarrow> \<not> contains (str ''console.'') v"
  using word_not_dot by (intro free_no_dot) blast

lemma free_sep_key:
  assumes "d \<notin> set (str ''console.'')"
    and "\<not> contains (str ''console.'') x" and "\<not> contains (str ''console.'') y"
  shows "\<not> contains (str ''console.'') (x @ d # y)"
  using assms by (intro free_sep) simp_all

text \<open>The text of a call after its first character, and the emitted calls.\<close>

lemma free_body_str_var:
  assumes ws: "\<forall>c \<in> set (w1 @ w2 @ w3 @ w4). is_space c"
    and q: "is_quote q1" "is_quote q2" and v: "\<forall>c \<in> set v. is_word c"
    and m: "\<not> contains (str ''console.'') msg" and r: "\<not> contains (str ''console.'') rest"
  shows "\<not> contains (str ''console.'')
           (w1 @ q1 # msg @ q2 # w2 @ 44 # w3 @ v @ w4 @ 41 # rest)"
proof -
  have "46 \<notin> set (w3 @ v @ w4)"
    using ws v space_not_dot word_not_dot by auto
  then have a: "\<not> contains (str ''console.'') (w3 @ v @ w4)" by (rule free_no_dot)
  have "\<not> contains (str ''console.'') ((w3 @ v @ w4) @ 41 # rest)"
    by (rule free_sep_key [OF _ a r]) simp
  then have b: "\<not> contains (str ''console.'') (w3 @ v @ w4 @ 41 # rest)" by simp
  have w1: "\<not> contains (str ''console.'') w1" and w2: "\<not> contains (str ''console.'') w2"
    by (rule free_spaces, use ws in simp)+
  have c: "\<not> contains (str ''console.'') (w2 @ 44 # w3 @ v @ w4 @ 41 # rest)"
    by (rule free_sep_key [OF _ w2 b]) simp
  have d: "\<not> contains (str ''console.'') (msg @ q2 # w2 @ 44 # w3 @ v @ w4 @ 41 # rest)"
    by (rule free_sep_key [OF quote_not_key [OF q(2)] m c])
  show ?thesis
    by (rule free_sep_key [OF quote_not_key [OF q(1)] w1 d])
qed

lemma free_body_simple:
  assumes ws: "\<forall>c \<in> set (w1 @ w2). is_space c"
    and q: "q1 \<notin> set (str ''console.'')" "q2 \<notin> set (str ''console.'')"
    and m: "\<not> contains (str ''console.'') msg" and r: "\<not> contains (str ''console.'') rest"
  shows "\<not> contains (str ''console.'') (w1 @ q1 # msg @ q2 # w2 @ 41 # rest)"
proof -
  have w1: "\<not> contains (str ''console.'') w1" and w2: "\<not> contains (str ''console.'') w2"
    by (rule free_spaces, use ws in simp)+
  have a: "\<not> contains (str ''console.'') (w2 @ 41 # rest)"
    by (rule free_sep_key [OF _ w2 r]) simp
  have b: "\<not> contains (str ''console.'') (msg @ q2 # w2 @ 41 # rest)"
    by (rule free_sep_key [OF q(2) m a])
  show ?thesis
    by (rule free_sep_key [OF q(1) w1 b])
qed

lemma free_tail:
  assumes "head = str ''console.error('' \<or> head = str ''console.warn('' \<or> head = str ''console.log(''"
    and b: "\<not> contains (str ''console.'') body"
  shows "\<not> contains (str ''console.'') (tl (head @ body))"
proof -
  have a: "\<not> contains (str ''console.'') (str ''onsole.error'')"
    "\<not> contains (str ''console.'') (str ''onsole.warn'')"
    "\<not> contains (str ''console.'') (str ''onsole.log'')" by simp_all
  have "\<not> contains (str ''console.'') (str ''onsole.error'' @ 40 # body)"
    by (rule free_sep_key [OF _ a(1) b]) simp
  moreover have "\<not> contains (str ''console.'') (str ''onsole.warn'' @ 40 # body)"
    by (rule free_sep_key [OF _ a(2) b]) simp
  moreover have "\<not> contains (str ''console.'') (str ''onsole.log'' @ 40 # body)"
    by (rule free_sep_key [OF _ a(3) b]) simp
  ultimately show ?thesis using assms(1) by auto
qed

lemma free_emitted:
  assumes a: "\<not> contains (str ''console.'') a" and e: "\<not> contains (str ''console.'') (e @ b)"
  shows "\<not> contains (str ''console.'') (a @ str ''log'' @ e @ b)"
proof -
  have l: "\<not> contains (str ''console.'') (a @ [108])"
    by (rule free_snoc [OF _ _ a]) simp_all
  have lo: "\<not> contains (str ''console.'') ((a @ [108]) @ [111])"
    by (rule free_snoc [OF _ _ l]) simp_all
  have "\<not> contains (str ''console.'') (((a @ [108]) @ [111]) @ 103 # e @ b)"
    by (rule free_sep_key [OF _ lo e]) simp
  then show ?thesis by simp
qed

lemma free_quoted:
  assumes m: "\<not> contains (str ''console.'') m" and b: "\<not> contains (str ''console.'') b"
    and x: "\<not> contains (str ''console.'') x" and y: "\<not> contains (str ''console.'') y"
  shows "\<not> contains (str ''console.'') (x @ dquote # m @ dquote # y @ 41 # b)"
proof -
  have d: "dquote \<notin> set (str ''console.'')" by (simp add: dquote_def)
  have "\<not> contains (str ''console.'') (y @ 41 # b)"
    by (rule free_sep_key [OF _ y b]) simp
  then have "\<not> contains (str ''console.'') (m @ dquote # y @ 41 # b)"
    by (rule free_sep_key [OF d m])
  then show ?thesis
    by (rule free_sep_key [OF d x])
qed

lemma free_replace_str_var:
  assumes v: "\<forall>c \<in> set v. is_word c" and m: "\<not> contains (str ''console.'') (clean_msg msg)"
    and a: "\<not> contains (str ''console.'') a" and b: "\<not> contains (str ''console.'') b"
  shows "\<not> contains (str ''console.'') (a @ replace_str_var msg v @ b)"
proof -
  have d: "dquote \<notin> set (str ''console.'')" by (simp add: dquote_def)
  have 1: "\<not> contains (str ''console.'') (str ''refactored'' @ dquote # str '' }'' @ 41 # b)"
    using free_quoted [of "str ''refactored''" b "[]" "str '' }''"] b
    by (simp add: dquote_def)
  have 2: "\<not> contains (str ''console.'') ([32] @ dquote # clean_msg msg @ dquote
      # (str '', { component: '' @ dquote # str ''refactored'' @ dquote # str '' }'') @ 41 # b)"
  proof (rule free_quoted [OF m b])
    show "\<not> contains (str ''console.'') [32]" by simp
    have "\<not> contains (str ''console.'') (str '', { component: '' @ dquote # str ''refactored'' @ [dquote] @ str '' }'')"
      by (simp add: dquote_def)
    then show "\<not> contains (str ''console.'') (str '', { component: '' @ dquote # str ''refactored'' @ dquote # str '' }'')"
      by simp
  qed
  have 3: "\<not> contains (str ''console.'') (v @ 44 # [32] @ dquote # clean_msg msg @ dquote
      # (str '', { component: '' @ dquote # str ''refactored'' @ dquote # str '' }'') @ 41 # b)"
    by (rule free_sep_key [OF _ free_words [OF v] 2]) simp
  have 4: "\<not> contains (str ''console.'') (str ''Error'' @ 40 # v @ 44 # [32] @ dquote
      # clean_msg msg @ dquote # (str '', { component: '' @ dquote # str ''refactored''
      @ dquote # str '' }'') @ 41 # b)"
    by (rule free_sep_key [OF _ _ 3]) simp_all
  have "\<not> contains (str ''console.'') (a @ str ''log'' @ (str ''Error'' @ 40 # v @ 44 # [32]
      @ dquote # clean_msg msg @ dquote # (str '', { component: '' @ dquote # str ''refactored''
      @ dquote # str '' }'') @ [41]) @ b)"
    using 4 by (intro free_emitted [OF a]) simp
  then show ?thesis by (simp add: replace_str_var_def)
qed

lemma free_level_msg:
  assumes "level = str ''log.error'' \<or> level = str ''log.warn'' \<or> level = str ''log.info''"
    and m: "\<not> contains (str ''console.'') m"
    and a: "\<not> contains (str ''console.'') a" and b: "\<not> contains (str ''console.'') b"
  shows "\<not> contains (str ''console.'')
           (a @ level @ str ''({ msg: '' @ [dquote] @ m @ [dquote] @ str '' })'' @ b)"
proof -
  have t: "\<not> contains (str ''console.'') (str ''{ msg: '' @ dquote # m @ dquote # str '' }'' @ 41 # b)"
    by (rule free_quoted [OF m b]) simp_all
  have "\<not> contains (str ''console.'') (str ''.error'' @ 40 # str ''{ msg: '' @ dquote # m @ dquote # str '' }'' @ 41 # b)"
    by (rule free_sep_key [OF _ _ t]) simp_all
  then have 1: "\<not> contains (str ''console.'') (a @ str ''log'' @ (str ''.error'' @ 40 # str ''{ msg: '' @ dquote # m @ dquote # str '' }'' @ [41]) @ b)"
    by (intro free_emitted [OF a]) simp
  have "\<not> contains (str ''console.'') (str ''.warn'' @ 40 # str ''{ msg: '' @ dquote # m @ dquote # str '' }'' @ 41 # b)"
    by (rule free_sep_key [OF _ _ t]) simp_all
  then have 2: "\<not> contains (str ''console.'') (a @ str ''log'' @ (str ''.warn'' @ 40 # str ''{ msg: '' @ dquote # m @ dquote # str '' }'' @ [41]) @ b)"
    by (intro free_emitted [OF a]) simp
  have "\<not> contains (str ''console.'') (str ''.info'' @ 40 # str ''{ msg: '' @ dquote # m @ dquote # str '' }'' @ 41 # b)"
    by (rule free_sep_key [OF _ _ t]) simp_all
  then have 3: "\<not> contains (str ''console.'') (a @ str ''log'' @ (str ''.info'' @ 40 # str ''{ msg: '' @ dquote # m @ dquote # str '' }'' @ [41]) @ b)"
    by (intro free_emitted [OF a]) simp
  from assms(1) 1 2 3 show ?thesis by auto
qed

text \<open>Where the import line can land around a call that holds no line feed.\<close>

lemma join_nl_insert_line:
  assumes "0 < k" and "k \<le> length ls"
  shows "\<exists>pre post. join_nl ls = pre @ post \<and> (post = [] \<or> hd post = newline)
           \<and> join_nl (take k ls @ [x] @ drop k ls) = pre @ [newline] @ x @ post"
proof (cases "k < length ls")
  case True
  let ?a = "take k ls" and ?b = "drop k ls"
  from assms True have ne: "?a \<noteq> []" "?b \<noteq> []" by auto
  have "join_nl ls = join_nl (?a @ ?b)" by simp
  also have "\<dots> = join_nl ?a @ newline # join_nl ?b"
    using ne by (rule join_nl_append)
  finally have 1: "join_nl ls = join_nl ?a @ (newline # join_nl ?b)" .
  have "join_nl (?a @ ([x] @ ?b)) = join_nl ?a @ newline # join_nl ([x] @ ?b)"
    using ne by (intro join_nl_append) auto
  moreover have "join_nl ([x] @ ?b) = join_nl [x] @ newline # join_nl ?b"
    using ne by (intro join_nl_append) auto
  ultimately have "join_nl (?a @ [x] @ ?b) = join_nl ?a @ [newline] @ x @ (newline # join_nl ?b)"
    by simp
  moreover have "hd (newline # join_nl ?b) = newline" by simp
  ultimately show ?thesis using 1 by blast
next
  case False
  with assms have k: "k = length ls" and ne: "ls \<noteq> []" by auto
  then have "join_nl (take k ls @ [x] @ drop k ls) = join_nl ls @ newline # join_nl [x]"
    using join_nl_append [of ls "[x]"] by simp
  then have "join_nl ls = join_nl ls @ [] \<and> ([] = [] \<or> hd [] = newline)
      \<and> join_nl (take k ls @ [x] @ drop k ls) = join_nl ls @ [newline] @ x @ []"
    by simp
  then show ?thesis by blast
qed

lemma add_logger_import_line:
  assumes "\<not> has_logger_import s"
  shows "(\<exists>pre post. s = pre @ post \<and> (post = [] \<or> hd post = newline)
            \<and> add_logger_import s = pre @ [newline] @ import_line @ post)
        \<or> add_logger_import s = import_line @ [newline, newline] @ s"
proof (cases "\<exists>l \<in> set (split_nl s). is_import_line l")
  case False
  with add_logger_import_cases [OF assms]
  show ?thesis by simp
next
  case True
  with add_logger_import_cases [OF assms] obtain j where j: "j < length (split_nl s)"
    "add_logger_import s
       = join_nl (take (Suc j) (split_nl s) @ [import_line] @ drop (Suc j) (split_nl s))"
    by auto
  from j(1) have "0 < Suc j" "Suc j \<le> length (split_nl s)" by simp_all
  from join_nl_insert_line [OF this, of import_line] obtain pre post where
    "join_nl (split_nl s) = pre @ post" "post = [] \<or> hd post = newline"
    "join_nl (take (Suc j) (split_nl s) @ [import_line] @ drop (Suc j) (split_nl s))
       = pre @ [newline] @ import_line @ post"
    by blast
  with j(2) have "s = pre @ post \<and> (post = [] \<or> hd post = newline)
      \<and> add_logger_import s = pre @ [newline] @ import_line @ post"
    by (simp add: join_split)
  then show ?thesis by blast
qed

lemma split_around:
  assumes e: "pre @ C @ post = p1 @ p2" and p2: "p2 = [] \<or> hd p2 = newline"
    and nl: "newline \<notin> set C" and ne: "C \<noteq> []"
  shows "(\<exists>a. pre = p1 @ a \<and> p2 = a @ C @ post \<and> hd a = newline \<and> a \<noteq> [])
       \<or> (\<exists>b. p1 = pre @ C @ b \<and> post = b @ p2)"
proof -
  from e obtain u where u: "(pre = p1 @ u \<and> u @ C @ post = p2) \<or> (pre @ u = p1 \<and> C @ post = u @ p2)"
    unfolding append_eq_append_conv2 by blast
  then show ?thesis
  proof
    assume a: "pre = p1 @ u \<and> u @ C @ post = p2"
    with ne have "p2 \<noteq> []" by auto
    with p2 have h: "hd p2 = newline" by simp
    have "u \<noteq> []"
    proof
      assume "u = []"
      with a ne have "hd p2 = hd C" by auto
      with h ne nl show False by (metis hd_in_set)
    qed
    with a h have "hd u = newline" by auto
    with a \<open>u \<noteq> []\<close> show ?thesis by blast
  next
    assume a: "pre @ u = p1 \<and> C @ post = u @ p2"
    then obtain w where w: "(C = u @ w \<and> w @ post = p2) \<or> (C @ w = u \<and> post = w @ p2)"
      unfolding append_eq_append_conv2 by blast
    then show ?thesis
    proof
      assume b: "C = u @ w \<and> w @ post = p2"
      have "w = []"
      proof (rule ccontr)
        assume n: "w \<noteq> []"
        with b have "p2 \<noteq> []" "hd p2 = hd w" by auto
        with p2 have "hd w = newline" by simp
        with n have "newline \<in> set w" by (metis hd_in_set)
        with b nl show False by auto
      qed
      with a b have "p1 = pre @ C @ [] \<and> post = [] @ p2" by simp
      then show ?thesis by blast
    next
      assume b: "C @ w = u \<and> post = w @ p2"
      with a have "p1 = pre @ C @ w \<and> post = w @ p2" by auto
      then show ?thesis by blast
    qed
  qed
qed

lemma free_import_line: "\<not> contains (str ''console.'') import_line"
  by (simp add: import_line_def)

lemma free_inserted:
  assumes a: "\<not> contains (str ''console.'') a" and b: "\<not> contains (str ''console.'') b"
    and h: "b = [] \<or> hd b = newline"
  shows "\<not> contains (str ''console.'') (a @ [newline] @ import_line @ b)"
proof -
  have n: "newline \<notin> set (str ''console.'')" by (simp add: newline_def)
  have "\<not> contains (str ''console.'') (import_line @ b)"
  proof (cases b)
    case Nil
    then show ?thesis using free_import_line by simp
  next
    case (Cons c b')
    with h have c: "c = newline" by simp
    from b Cons have "\<not> contains (str ''console.'') ([c] @ b')" by simp
    then have "\<not> contains (str ''console.'') b'" using free_appendD by blast
    then have "\<not> contains (str ''console.'') (import_line @ newline # b')"
      by (rule free_sep_key [OF n free_import_line])
    with Cons c show ?thesis by simp
  qed
  then have "\<not> contains (str ''console.'') (a @ newline # import_line @ b)"
    by (rule free_sep_key [OF n a])
  then show ?thesis by simp
qed

lemma free_import_top:
  assumes a: "\<not> contains (str ''console.'') a"
  shows "\<not> contains (str ''console.'') (import_line @ [newline, newline] @ a)"
proof -
  have n: "newline \<notin> set (str ''console.'')" by (simp add: newline_def)
  have "\<not> contains (str ''console.'') ([] @ newline # a)"
    by (rule free_sep_key [OF n _ a]) simp
  then have "\<not> contains (str ''console.'') (import_line @ newline # [] @ newline # a)"
    by (rule free_sep_key [OF n free_import_line])
  then show ?thesis by simp
qed

lemma add_logger_import_around:
  assumes nl: "newline \<notin> set C" and ne: "C \<noteq> []"
    and a: "\<not> contains (str ''console.'') pre" and b: "\<not> contains (str ''console.'') post"
  shows "\<exists>pre' post'. add_logger_import (pre @ C @ post) = pre' @ C @ post'
           \<and> \<not> contains (str ''console.'') pre' \<and> \<not> contains (str ''console.'') post'"
proof (cases "has_logger_import (pre @ C @ post)")
  case True
  then have "add_logger_import (pre @ C @ post) = pre @ C @ post"
    by (rule add_logger_import_present)
  with a b show ?thesis by blast
next
  case False
  from add_logger_import_line [OF False] show ?thesis
  proof
    assume "add_logger_import (pre @ C @ post) = import_line @ [newline, newline] @ pre @ C @ post"
    then have "add_logger_import (pre @ C @ post)
        = (import_line @ [newline, newline] @ pre) @ C @ post" by simp
    with free_import_top [OF a] b show ?thesis by blast
  next
    assume "\<exists>p1 p2. pre @ C @ post = p1 @ p2 \<and> (p2 = [] \<or> hd p2 = newline)
        \<and> add_logger_import (pre @ C @ post) = p1 @ [newline] @ import_line @ p2"
    then obtain p1 p2 where p: "pre @ C @ post = p1 @ p2" "p2 = [] \<or> hd p2 = newline"
      and i: "add_logger_import (pre @ C @ post) = p1 @ [newline] @ import_line @ p2"
      by blast
    from split_around [OF p nl ne] show ?thesis
    proof
      assume "\<exists>x. pre = p1 @ x \<and> p2 = x @ C @ post \<and> hd x = newline \<and> x \<noteq> []"
      then obtain x where x: "pre = p1 @ x" "p2 = x @ C @ post" "hd x = newline" by blast
      from a x(1) have "\<not> contains (str ''console.'') p1" "\<not> contains (str ''console.'') x"
        using free_appendD by blast+
      then have "\<not> contains (str ''console.'') (p1 @ [newline] @ import_line @ x)"
        using x(3) by (intro free_inserted) simp_all
      moreover from i x(2) have "add_logger_import (pre @ C @ post)
          = (p1 @ [newline] @ import_line @ x) @ C @ post" by simp
      ultimately show ?thesis using b by blast
    next
      assume "\<exists>y. p1 = pre @ C @ y \<and> post = y @ p2"
      then obtain y where y: "p1 = pre @ C @ y" "post = y @ p2" by blast
      from b y(2) have "\<not> contains (str ''console.'') y" "\<not> contains (str ''console.'') p2"
        using free_appendD by blast+
      then have "\<not> contains (str ''console.'') (y @ [newline] @ import_line @ p2)"
        using p(2) by (intro free_inserted) simp_all
      moreover from i y(1) have "add_logger_import (pre @ C @ post)
          = pre @ C @ (y @ [newline] @ import_line @ p2)" by simp
      ultimately show ?thesis using a by blast
    qed
  qed
qed

text \<open>The count of console tokens in a text with one call.\<close>

lemma match_console_lit: "match_console t \<noteq> None \<Longrightarrow> lit (str ''console.'') t \<noteq> None"
  by (auto simp: match_console_def bind_eq_Some_conv)

lemma count_console_free: "\<not> contains (str ''console.'') s \<Longrightarrow> count_console s = 0"
  using pass_free [of match_console "str ''console.''" s] match_console_lit
  by (simp add: count_console_def re_count_def)

lemma match_console_head:
  assumes "head = str ''console.error('' \<or> head = str ''console.warn('' \<or> head = str ''console.log(''"
  shows "match_console (head @ body) = Some ([], 40 # body)"
  using assms by (auto simp: match_console_def)

lemma count_console_call:
  assumes h: "head = str ''console.error('' \<or> head = str ''console.warn('' \<or> head = str ''console.log(''"
    and a: "\<not> contains (str ''console.'') pre" and b: "\<not> contains (str ''console.'') body"
  shows "count_console (pre @ head @ body) = 1"
proof -
  have k: "\<And>t. match_console t \<noteq> None \<Longrightarrow> lit (str ''console.'') t \<noteq> None"
    by (rule match_console_lit)
  have "\<not> contains (str ''console.'') ([] @ 40 # body)"
    by (rule free_sep_key [OF _ _ b]) simp_all
  then have r: "re_subn match_console (40 # body) = (40 # body, 0)"
    using pass_free [of match_console "str ''console.''" "40 # body"] k by simp
  have "length (40 # body) < length (head @ body)" using h by auto
  with match_console_head [OF h, of body]
  have "re_subn match_console (head @ body)
      = ([] @ fst (re_subn match_console (40 # body)), Suc (snd (re_subn match_console (40 # body))))"
    by (rule re_subn_match)
  with r have c: "re_subn match_console (head @ body) = (40 # body, 1)" by simp
  have "head @ body \<noteq> []" "hd (head @ body) \<notin> set (tl (str ''console.''))"
    using h by auto
  then have "re_subn match_console (pre @ head @ body)
      = (pre @ fst (re_subn match_console (head @ body)), snd (re_subn match_console (head @ body)))"
    using skip_prefix [of match_console "str ''console.''" pre "head @ body"] k a by simp
  with c show ?thesis by (simp add: count_console_def re_count_def)
qed

lemma patterns_A_key:
  "\<forall>m \<in> set patterns_A. \<forall>t. m t \<noteq> None \<longrightarrow> lit (str ''console.'') t \<noteq> None"
proof -
  have e: "\<And>t. lit (str ''console.error('') t \<noteq> None \<Longrightarrow> lit (str ''console.'') t \<noteq> None"
    and w: "\<And>t. lit (str ''console.warn('') t \<noteq> None \<Longrightarrow> lit (str ''console.'') t \<noteq> None"
    and l: "\<And>t. lit (str ''console.log('') t \<noteq> None \<Longrightarrow> lit (str ''console.'') t \<noteq> None"
    by (auto simp: lit_Some_iff)
  show ?thesis
    unfolding patterns_A_def
    using e w l pat_str_var_head pat_template_head pat_simple_head
    by (simp del: str_Cons str_Nil)
qed

text \<open>Which pattern takes a call, and which patterns leave it.\<close>

lemma lit_other_head:
  "lit (str ''console.error('') (str ''console.warn('' @ x) = None"
  "lit (str ''console.error('') (str ''console.log('' @ x) = None"
  "lit (str ''console.warn('') (str ''console.error('' @ x) = None"
  "lit (str ''console.warn('') (str ''console.log('' @ x) = None"
  "lit (str ''console.log('') (str ''console.error('' @ x) = None"
  "lit (str ''console.log('') (str ''console.warn('' @ x) = None"
  by simp_all

lemma pat_other_head:
  assumes "lit head s = None"
  shows "pat_str_var head s = None" "pat_template head level s = None"
    "pat_simple head level s = None"
  using assms
  by (simp_all add: pat_str_var_def pat_template_def pat_simple_def match_str_var_def
      match_template_def match_simple_def)

lemma match_template_quoted:
  assumes "\<forall>c \<in> set (w1 @ w2). is_space c" and "is_quote q1"
    and "msg \<noteq> []" and "\<forall>c \<in> set msg. non_quote c"
    and "q1 = backtick \<longrightarrow> q2 = backtick" and "d \<noteq> 41" and "\<not> is_space d"
  shows "match_template head (head @ w1 @ q1 # msg @ q2 # w2 @ d # rest) = None"
proof (cases "q1 = backtick")
  case False
  have "spaces (w1 @ q1 # msg @ q2 # w2 @ d # rest) = q1 # msg @ q2 # w2 @ d # rest"
    using assms(1,2) by (intro spaces_split) (auto simp: quote_not_space)
  with False show ?thesis by (simp add: match_template_def)
next
  case True
  with assms(5) have q2: "q2 = backtick" by simp
  let ?t2 = "backtick # w2 @ d # rest"
  let ?t1 = "backtick # msg @ ?t2"
  have e1: "spaces (w1 @ ?t1) = ?t1"
    using assms(1) by (intro spaces_split) auto
  have e3: "many1 (\<lambda>c. c \<noteq> backtick) (msg @ ?t2) = Some (msg, ?t2)"
    using assms(3,4) by (intro many1_split) (auto simp: non_quote_def is_quote_def)
  have e5: "spaces (w2 @ d # rest) = d # rest"
    using assms(1,7) by (intro spaces_split) auto
  show ?thesis
    using e1 e3 e5 assms(6) True q2 by (simp add: match_template_def)
qed

lemma match_str_var_single:
  assumes "\<forall>c \<in> set (w1 @ w2). is_space c" and "is_quote q1" and "is_quote q2"
    and "msg \<noteq> []" and "\<forall>c \<in> set msg. non_quote c"
  shows "match_str_var head (head @ w1 @ q1 # msg @ q2 # w2 @ 41 # rest) = None"
proof -
  let ?t2 = "q2 # w2 @ 41 # rest"
  let ?t1 = "q1 # msg @ ?t2"
  have e1: "spaces (w1 @ ?t1) = ?t1"
    using assms(1,2) by (intro spaces_split) (auto simp: quote_not_space)
  have e2: "one is_quote ?t1 = Some (msg @ ?t2)"
    using assms(2) by (simp add: one_def)
  have e3: "many1 non_quote (msg @ ?t2) = Some (msg, ?t2)"
    using assms(3,4,5) by (intro many1_split) (auto simp: non_quote_def)
  have e4: "one is_quote ?t2 = Some (w2 @ 41 # rest)"
    using assms(3) by (simp add: one_def)
  have e5: "spaces (w2 @ 41 # rest) = 41 # rest"
    using assms(1) by (intro spaces_split) auto
  show ?thesis
    using e1 e2 e3 e4 e5 by (simp add: match_str_var_def)
qed

lemma match_template_other_quote:
  assumes "\<forall>c \<in> set w1. is_space c" and "is_quote q1" and "q1 \<noteq> backtick"
  shows "match_template head (head @ w1 @ q1 # x) = None"
proof -
  have "spaces (w1 @ q1 # x) = q1 # x"
    using assms(1,2) by (intro spaces_split) (auto simp: quote_not_space)
  with assms(3) show ?thesis by (simp add: match_template_def)
qed

text \<open>One call in a text that holds no other console token.\<close>

lemma call_passes:
  assumes h: "head = str ''console.error('' \<or> head = str ''console.warn('' \<or> head = str ''console.log(''"
    and ps: "set ps \<subseteq> set patterns_A" and i: "i < length ps"
    and own: "(ps ! i) (head @ body @ post) = Some (E, post)"
    and oth: "\<forall>j < i. (ps ! j) (head @ body @ post) = None"
    and fb: "\<not> contains (str ''console.'') (body @ post)"
    and fe: "\<not> contains (str ''console.'') (pre @ E @ post)"
    and fp: "\<not> contains (str ''console.'') pre"
  shows "foldl (\<lambda>t m. re_sub m t) (pre @ (head @ body) @ post) ps = pre @ E @ post"
proof (rule passes_call [where k = "str ''console.''" and i = i])
  show "\<forall>m \<in> set ps. \<forall>t. m t \<noteq> None \<longrightarrow> lit (str ''console.'') t \<noteq> None"
    using patterns_A_key ps by blast
  show "\<not> contains (str ''console.'') pre" by (rule fp)
  show "head @ body \<noteq> []" using h by auto
  show "hd (head @ body) \<notin> set (tl (str ''console.''))" using h by auto
  have "tl (head @ body) @ post = tl (head @ body @ post)" using h by auto
  then show "\<not> contains (str ''console.'') (tl (head @ body) @ post)"
    using free_tail [OF h fb] by simp
  show "\<not> contains (str ''console.'') (pre @ E @ post)" by (rule fe)
  show "i < length ps" by (rule i)
  show "(ps ! i) ((head @ body) @ post) = Some (E, post)" using own by simp
  show "\<forall>j < i. (ps ! j) ((head @ body) @ post) = None" using oth by simp
qed

lemma call_passes_none:
  assumes h: "head = str ''console.error('' \<or> head = str ''console.warn('' \<or> head = str ''console.log(''"
    and ps: "set ps \<subseteq> set patterns_A"
    and oth: "\<forall>m \<in> set ps. m (head @ body @ post) = None"
    and fb: "\<not> contains (str ''console.'') (body @ post)"
    and fp: "\<not> contains (str ''console.'') pre"
  shows "foldl (\<lambda>t m. re_sub m t) (pre @ (head @ body) @ post) ps = pre @ (head @ body) @ post"
proof (rule passes_call_none [where k = "str ''console.''"])
  show "\<forall>m \<in> set ps. \<forall>t. m t \<noteq> None \<longrightarrow> lit (str ''console.'') t \<noteq> None"
    using patterns_A_key ps by blast
  show "\<not> contains (str ''console.'') pre" by (rule fp)
  show "head @ body \<noteq> []" using h by auto
  show "hd (head @ body) \<notin> set (tl (str ''console.''))" using h by auto
  have "tl (head @ body) @ post = tl (head @ body @ post)" using h by auto
  then show "\<not> contains (str ''console.'') (tl (head @ body) @ post)"
    using free_tail [OF h fb] by simp
  show "\<forall>m \<in> set ps. m ((head @ body) @ post) = None" using oth by simp
qed

lemma call_passes_A:
  assumes h: "head = str ''console.error('' \<or> head = str ''console.warn('' \<or> head = str ''console.log(''"
    and i: "i < length patterns_A"
    and own: "(patterns_A ! i) (head @ body @ post) = Some (E, post)"
    and oth: "\<And>j. j < i \<Longrightarrow> (patterns_A ! j) (head @ body @ post) = None"
    and fb: "\<not> contains (str ''console.'') (body @ post)"
    and fe: "\<not> contains (str ''console.'') (pre @ E @ post)"
    and fp: "\<not> contains (str ''console.'') pre"
  shows "passes_A (pre @ (head @ body) @ post) = pre @ E @ post"
  unfolding passes_A_foldl
  using h _ i own _ fb fe fp
proof (rule call_passes)
  show "set patterns_A \<subseteq> set patterns_A" by simp
  show "\<forall>j < i. (patterns_A ! j) (head @ body @ post) = None"
    using oth by blast
qed

lemma call_rewrite_A:
  assumes h: "head = str ''console.error('' \<or> head = str ''console.warn('' \<or> head = str ''console.log(''"
    and nl: "newline \<notin> set (head @ body)" and i: "i < length patterns_A"
    and own: "\<And>rest. \<not> contains (str ''console.'') rest
                \<Longrightarrow> (patterns_A ! i) (head @ body @ rest) = Some (E, rest)"
    and oth: "\<And>rest j. \<not> contains (str ''console.'') rest \<Longrightarrow> j < i
                \<Longrightarrow> (patterns_A ! j) (head @ body @ rest) = None"
    and fb: "\<And>rest. \<not> contains (str ''console.'') rest
                \<Longrightarrow> \<not> contains (str ''console.'') (body @ rest)"
    and fe: "\<And>a b. \<not> contains (str ''console.'') a \<Longrightarrow> \<not> contains (str ''console.'') b
                \<Longrightarrow> \<not> contains (str ''console.'') (a @ E @ b)"
    and fp: "\<not> contains (str ''console.'') pre" and fq: "\<not> contains (str ''console.'') post"
  shows "\<exists>pre' post'. add_logger_import (pre @ (head @ body) @ post) = pre' @ (head @ body) @ post'
           \<and> \<not> contains (str ''console.'') pre' \<and> \<not> contains (str ''console.'') post'
           \<and> rewrite_A (pre @ (head @ body) @ post) = (pre' @ E @ post', 1)"
proof -
  have p: "passes_A (a @ (head @ body) @ b) = a @ E @ b"
    if "\<not> contains (str ''console.'') a" "\<not> contains (str ''console.'') b" for a b
    using h i own [OF that(2)] oth [OF that(2)] fb [OF that(2)] fe [OF that] that(1)
    by (rule call_passes_A)
  let ?T = "pre @ (head @ body) @ post"
  have ne: "head @ body \<noteq> []" using h by auto
  from add_logger_import_around [OF nl ne fp fq] obtain pre' post' where
    a: "add_logger_import ?T = pre' @ (head @ body) @ post'"
    and f: "\<not> contains (str ''console.'') pre'" "\<not> contains (str ''console.'') post'"
    by blast
  have t: "transform_A ?T = pre' @ E @ post'"
    using a p [OF f] by (simp add: transform_A_passes)
  have "count_console (pre @ head @ (body @ post)) = 1"
    using h fp fb [OF fq] by (rule count_console_call)
  then have c1: "count_console ?T = 1" by simp
  have c0: "count_console (pre' @ E @ post') = 0"
    using fe [OF f] by (rule count_console_free)
  have "pre' @ E @ post' \<noteq> ?T" using c0 c1 by auto
  with t c0 c1 have "rewrite_A ?T = (pre' @ E @ post', 1)"
    by (simp add: rewrite_A_def Let_def)
  with a f show ?thesis
    by blast
qed

lemma patterns_A_groups:
  "take 3 patterns_A
     = [pat_str_var (str ''console.error(''), pat_template (str ''console.error('') (str ''log.error''),
        pat_simple (str ''console.error('') (str ''log.error'')]"
  "take 3 (drop 3 patterns_A)
     = [pat_template (str ''console.warn('') (str ''log.warn''), pat_str_var (str ''console.warn(''),
        pat_simple (str ''console.warn('') (str ''log.warn'')]"
  "drop 6 patterns_A
     = [pat_template (str ''console.log('') (str ''log.info''), pat_simple (str ''console.log('') (str ''log.info'')]"
  by (simp_all add: patterns_A_def del: str_Cons str_Nil)

lemma patterns_A_subsets:
  "set (take 3 patterns_A) \<subseteq> set patterns_A"
  "set (take 3 (drop 3 patterns_A)) \<subseteq> set patterns_A"
  "set (drop 6 patterns_A) \<subseteq> set patterns_A"
  by (meson set_take_subset set_drop_subset subset_trans)+

lemma below_four: "j < (4::nat) \<Longrightarrow> j = 0 \<or> j = 1 \<or> j = 2 \<or> j = 3"
  by arith

text \<open>A call with a quoted message and a variable.\<close>

lemma str_var_own:
  assumes ws: "\<forall>c \<in> set (w1 @ w2 @ w3 @ w4). is_space c"
    and q: "is_quote q1" "is_quote q2"
    and msg: "msg \<noteq> []" "\<forall>c \<in> set msg. non_quote c"
    and v: "v \<noteq> []" "\<forall>c \<in> set v. is_word c"
  shows "pat_str_var head (head @ (w1 @ q1 # msg @ q2 # w2 @ 44 # w3 @ v @ w4 @ [41]) @ rest)
           = Some (replace_str_var msg v, rest)"
proof -
  have "match_str_var head
           (head @ w1 @ [q1] @ msg @ [q2] @ w2 @ (str '','') @ w3 @ v @ w4 @ (str '')'') @ rest)
         = Some (msg, v, rest)"
    using ws q msg v by (intro match_str_var_call) auto
  then show ?thesis by (simp add: pat_str_var_def)
qed

lemma str_var_error_call:
  assumes ws: "\<forall>c \<in> set (w1 @ w2 @ w3 @ w4). is_space c"
    and q: "is_quote q1" "is_quote q2"
    and msg: "msg \<noteq> []" "\<forall>c \<in> set msg. non_quote c"
    and v: "v \<noteq> []" "\<forall>c \<in> set v. is_word c"
    and fm: "\<not> contains (str ''console.'') msg" "\<not> contains (str ''console.'') (clean_msg msg)"
    and fp: "\<not> contains (str ''console.'') pre" and fq: "\<not> contains (str ''console.'') post"
    and b: "body = w1 @ q1 # msg @ q2 # w2 @ 44 # w3 @ v @ w4 @ [41]"
  shows "refactor_console_error (pre @ (str ''console.error('' @ body) @ post)
           = pre @ replace_str_var msg v @ post"
    and "passes_A (pre @ (str ''console.error('' @ body) @ post) = pre @ replace_str_var msg v @ post"
    and "newline \<notin> set body \<Longrightarrow>
         \<exists>pre' post'. add_logger_import (pre @ (str ''console.error('' @ body) @ post)
              = pre' @ (str ''console.error('' @ body) @ post'
           \<and> \<not> contains (str ''console.'') pre' \<and> \<not> contains (str ''console.'') post'
           \<and> rewrite_A (pre @ (str ''console.error('' @ body) @ post)
              = (pre' @ replace_str_var msg v @ post', 1)"
proof -
  let ?h = "str ''console.error(''"
  have h: "?h = str ''console.error('' \<or> ?h = str ''console.warn('' \<or> ?h = str ''console.log(''"
    by simp
  have own: "pat_str_var ?h (?h @ body @ rest) = Some (replace_str_var msg v, rest)" for rest
    using str_var_own [OF ws q msg v, of ?h rest] b by simp
  have fb: "\<not> contains (str ''console.'') (body @ rest)"
    if "\<not> contains (str ''console.'') rest" for rest
    using free_body_str_var [OF ws q v(2) fm(1) that] b by simp
  have fe: "\<not> contains (str ''console.'') (a @ replace_str_var msg v @ c)"
    if "\<not> contains (str ''console.'') a" "\<not> contains (str ''console.'') c" for a c
    using v(2) fm(2) that by (rule free_replace_str_var)
  have "foldl (\<lambda>t m. re_sub m t) (pre @ (?h @ body) @ post) (take 3 patterns_A)
      = pre @ replace_str_var msg v @ post"
  proof (rule call_passes [OF h patterns_A_subsets(1), where i = 0])
    show "0 < length (take 3 patterns_A)" by (simp add: patterns_A_def)
    show "(take 3 patterns_A ! 0) (?h @ body @ post) = Some (replace_str_var msg v, post)"
      unfolding patterns_A_groups using own [of post] by (simp del: str_Cons str_Nil)
    show "\<forall>j<0. (take 3 patterns_A ! j) (?h @ body @ post) = None" by simp
    show "\<not> contains (str ''console.'') (body @ post)" using fq by (rule fb)
    show "\<not> contains (str ''console.'') (pre @ replace_str_var msg v @ post)"
      using fp fq by (rule fe)
    show "\<not> contains (str ''console.'') pre" by (rule fp)
  qed
  then show "refactor_console_error (pre @ (?h @ body) @ post) = pre @ replace_str_var msg v @ post"
    by (simp only: refactor_console_error_foldl)
  have i: "0 < length patterns_A" by (simp add: patterns_A_def)
  have o: "(patterns_A ! 0) (?h @ body @ rest) = Some (replace_str_var msg v, rest)" for rest
    using own [of rest] by (simp add: patterns_A_def del: str_Cons str_Nil)
  show "passes_A (pre @ (?h @ body) @ post) = pre @ replace_str_var msg v @ post"
    using h i o _ fb [OF fq] fe [OF fp fq] fp by (rule call_passes_A) simp
  assume "newline \<notin> set body"
  then have nl: "newline \<notin> set (?h @ body)" by (simp add: newline_def)
  show "\<exists>pre' post'. add_logger_import (pre @ (?h @ body) @ post) = pre' @ (?h @ body) @ post'
           \<and> \<not> contains (str ''console.'') pre' \<and> \<not> contains (str ''console.'') post'
           \<and> rewrite_A (pre @ (?h @ body) @ post) = (pre' @ replace_str_var msg v @ post', 1)"
    using h nl i o _ fb fe fp fq by (rule call_rewrite_A) simp_all
qed

lemma str_var_warn_call:
  assumes ws: "\<forall>c \<in> set (w1 @ w2 @ w3 @ w4). is_space c"
    and q: "is_quote q1" "is_quote q2" and qq: "q1 = backtick \<longrightarrow> q2 = backtick"
    and msg: "msg \<noteq> []" "\<forall>c \<in> set msg. non_quote c"
    and v: "v \<noteq> []" "\<forall>c \<in> set v. is_word c"
    and fm: "\<not> contains (str ''console.'') msg" "\<not> contains (str ''console.'') (clean_msg msg)"
    and fp: "\<not> contains (str ''console.'') pre" and fq: "\<not> contains (str ''console.'') post"
    and b: "body = w1 @ q1 # msg @ q2 # w2 @ 44 # w3 @ v @ w4 @ [41]"
  shows "refactor_console_warn (pre @ (str ''console.warn('' @ body) @ post)
           = pre @ replace_str_var msg v @ post"
    and "refactor_console_error (pre @ (str ''console.warn('' @ body) @ post)
           = pre @ (str ''console.warn('' @ body) @ post"
    and "passes_A (pre @ (str ''console.warn('' @ body) @ post) = pre @ replace_str_var msg v @ post"
    and "newline \<notin> set body \<Longrightarrow>
         \<exists>pre' post'. add_logger_import (pre @ (str ''console.warn('' @ body) @ post)
              = pre' @ (str ''console.warn('' @ body) @ post'
           \<and> \<not> contains (str ''console.'') pre' \<and> \<not> contains (str ''console.'') post'
           \<and> rewrite_A (pre @ (str ''console.warn('' @ body) @ post)
              = (pre' @ replace_str_var msg v @ post', 1)"
proof -
  let ?h = "str ''console.warn(''"
  have h: "?h = str ''console.error('' \<or> ?h = str ''console.warn('' \<or> ?h = str ''console.log(''"
    by simp
  have own: "pat_str_var ?h (?h @ body @ rest) = Some (replace_str_var msg v, rest)" for rest
    using str_var_own [OF ws q msg v, of ?h rest] b by simp
  have tp: "pat_template ?h level (?h @ body @ rest) = None" for level rest
  proof -
    have "match_template ?h (?h @ w1 @ q1 # msg @ q2 # w2 @ 44 # (w3 @ v @ w4 @ 41 # rest)) = None"
      using ws q(1) msg qq by (intro match_template_quoted) auto
    then show ?thesis using b by (simp add: pat_template_def)
  qed
  have oe: "pat_str_var (str ''console.error('') (?h @ body @ rest) = None"
    "pat_template (str ''console.error('') level (?h @ body @ rest) = None"
    "pat_simple (str ''console.error('') level (?h @ body @ rest) = None" for level rest
    by (rule pat_other_head, rule lit_other_head)+
  have fb: "\<not> contains (str ''console.'') (body @ rest)"
    if "\<not> contains (str ''console.'') rest" for rest
    using free_body_str_var [OF ws q v(2) fm(1) that] b by simp
  have fe: "\<not> contains (str ''console.'') (a @ replace_str_var msg v @ c)"
    if "\<not> contains (str ''console.'') a" "\<not> contains (str ''console.'') c" for a c
    using v(2) fm(2) that by (rule free_replace_str_var)
  have "foldl (\<lambda>t m. re_sub m t) (pre @ (?h @ body) @ post) (take 3 (drop 3 patterns_A))
      = pre @ replace_str_var msg v @ post"
  proof (rule call_passes [OF h patterns_A_subsets(2), where i = 1])
    show "1 < length (take 3 (drop 3 patterns_A))" by (simp add: patterns_A_def)
    show "(take 3 (drop 3 patterns_A) ! 1) (?h @ body @ post) = Some (replace_str_var msg v, post)"
      unfolding patterns_A_groups using own [of post] by (simp del: str_Cons str_Nil)
    show "\<forall>j<1. (take 3 (drop 3 patterns_A) ! j) (?h @ body @ post) = None"
      unfolding patterns_A_groups using tp [of "str ''log.warn''" post]
      by (simp del: str_Cons str_Nil)
    show "\<not> contains (str ''console.'') (body @ post)" using fq by (rule fb)
    show "\<not> contains (str ''console.'') (pre @ replace_str_var msg v @ post)"
      using fp fq by (rule fe)
    show "\<not> contains (str ''console.'') pre" by (rule fp)
  qed
  then show "refactor_console_warn (pre @ (?h @ body) @ post) = pre @ replace_str_var msg v @ post"
    by (simp only: refactor_console_warn_foldl)
  have "foldl (\<lambda>t m. re_sub m t) (pre @ (?h @ body) @ post) (take 3 patterns_A)
      = pre @ (?h @ body) @ post"
  proof (rule call_passes_none [OF h patterns_A_subsets(1)])
    show "\<forall>m \<in> set (take 3 patterns_A). m (?h @ body @ post) = None"
      unfolding patterns_A_groups using oe [where rest = post] by (simp del: str_Cons str_Nil)
    show "\<not> contains (str ''console.'') (body @ post)" using fq by (rule fb)
    show "\<not> contains (str ''console.'') pre" by (rule fp)
  qed
  then show "refactor_console_error (pre @ (?h @ body) @ post) = pre @ (?h @ body) @ post"
    by (simp only: refactor_console_error_foldl)
  have i: "4 < length patterns_A" by (simp add: patterns_A_def)
  have o: "(patterns_A ! 4) (?h @ body @ rest) = Some (replace_str_var msg v, rest)" for rest
    using own [of rest] by (simp add: patterns_A_def del: str_Cons str_Nil)
  have n: "(patterns_A ! j) (?h @ body @ rest) = None" if "j < 4" for j rest
    using below_four [OF that] oe [where rest = rest] tp [where rest = rest]
    by (auto simp add: patterns_A_def simp del: str_Cons str_Nil)
  show "passes_A (pre @ (?h @ body) @ post) = pre @ replace_str_var msg v @ post"
    using h i o n fb [OF fq] fe [OF fp fq] fp by (rule call_passes_A)
  assume "newline \<notin> set body"
  then have nl: "newline \<notin> set (?h @ body)" by (simp add: newline_def)
  show "\<exists>pre' post'. add_logger_import (pre @ (?h @ body) @ post) = pre' @ (?h @ body) @ post'
           \<and> \<not> contains (str ''console.'') pre' \<and> \<not> contains (str ''console.'') post'
           \<and> rewrite_A (pre @ (?h @ body) @ post) = (pre' @ replace_str_var msg v @ post', 1)"
    using h nl i o n fb fe fp fq by (rule call_rewrite_A)
qed

section \<open>The error value comes first\<close>




section \<open>Brackets and surrounding whitespace\<close>



section \<open>What the removal of markers takes\<close>

lemma match_interp_closed:
  assumes "no_open (c # a)" and "e \<noteq> []" and "ch (CHR ''}'') \<notin> set e"
  shows "match_interp (c # a @ str ''${'' @ e @ str ''}'' @ b) = None"
proof (rule ccontr)
  assume "match_interp (c # a @ str ''${'' @ e @ str ''}'' @ b) \<noteq> None"
  then obtain r rest where "match_interp (c # a @ str ''${'' @ e @ str ''}'' @ b) = Some (r, rest)"
    by auto
  then obtain e' where s: "c # a @ str ''${'' @ e @ str ''}'' @ b = str ''${'' @ e' @ str ''}'' @ rest"
    and e': "e' \<noteq> []" "ch (CHR ''}'') \<notin> set e'"
    using match_interp_shape by blast
  from s have c: "c = 36" and t: "a @ 36 # 123 # e @ 125 # b = 123 # e' @ 125 # rest" by simp_all
  show False
  proof (cases a)
    case Nil
    with t show False by simp
  next
    case (Cons x a')
    with t have x: "x = 123" and u: "a' @ 36 # 123 # e @ 125 # b = e' @ 125 # rest" by simp_all
    from c x Cons have "lit (str ''${'') (c # a) \<noteq> None" by simp
    with assms(1) have "lit (str ''${}'') (c # a) \<noteq> None"
      unfolding no_open.simps by blast
    with c x Cons obtain a'' where "a' = 125 # a''" by (cases a') (auto split: if_splits)
    with u e'(1) have "hd e' = 125" by (cases e') auto
    with e' show False by (cases e') auto
  qed
qed

lemma strip_interp_after:
  assumes "no_open a" and "e \<noteq> []" and "ch (CHR ''}'') \<notin> set e"
  shows "strip_interp (a @ str ''${'' @ e @ str ''}'' @ b) = a @ strip_interp b"
  using assms(1)
proof (induction a)
  case Nil
  have "\<not> contains (str ''${'') []" by simp
  from strip_interp_marker [OF this assms(2,3), of b] show ?case by simp
next
  case (Cons c a)
  then have na: "no_open a" by simp
  have "match_interp (c # a @ str ''${'' @ e @ str ''}'' @ b) = None"
    using Cons.prems assms(2,3) by (rule match_interp_closed)
  then have "re_subn match_interp (c # a @ str ''${'' @ e @ str ''}'' @ b)
      = (c # fst (re_subn match_interp (a @ str ''${'' @ e @ str ''}'' @ b)),
         snd (re_subn match_interp (a @ str ''${'' @ e @ str ''}'' @ b)))"
    by (rule re_subn_skip)
  with Cons.IH [OF na] show ?case by (simp add: strip_interp_def re_sub_def)
qed

lemma strip_interp_none: "\<not> occurs match_interp a \<Longrightarrow> strip_interp a = a"
  by (simp add: strip_interp_def re_sub_def re_subn_no_occurs)

lemma run_to_brace:
  assumes "125 \<in> set t" and "t \<noteq> []" and "hd t \<noteq> 125"
  shows "\<exists>x r. many1 (\<lambda>c. c \<noteq> 125) t = Some (x, 125 # r)"
proof -
  from assms(2,3) have "takeWhile (\<lambda>c. c \<noteq> 125) t \<noteq> []" by (cases t) auto
  moreover from assms(1) have d: "dropWhile (\<lambda>c. c \<noteq> 125) t \<noteq> []"
    by (simp add: dropWhile_eq_Nil_conv) 
  then have "\<not> hd (dropWhile (\<lambda>c. c \<noteq> 125) t) \<noteq> 125" by (rule hd_dropWhile)
  with d obtain r where "dropWhile (\<lambda>c. c \<noteq> 125) t = 125 # r"
    by (cases "dropWhile (\<lambda>c. c \<noteq> 125) t") auto
  ultimately show ?thesis by (simp add: many1_def)
qed

lemma marker_leftmost:
  "occurs match_interp s \<Longrightarrow>
     \<exists>a e b. s = a @ str ''${'' @ e @ str ''}'' @ b \<and> no_open a \<and> e \<noteq> []
        \<and> ch (CHR ''}'') \<notin> set e"
proof (induction s)
  case Nil
  then show ?case by (simp add: match_interp_def)
next
  case (Cons c cs)
  show ?case
  proof (cases "match_interp (c # cs)")
    case (Some p)
    obtain r rest where "p = (r, rest)" by (cases p)
    with Some obtain e where "c # cs = str ''${'' @ e @ str ''}'' @ rest" "e \<noteq> []"
      "ch (CHR ''}'') \<notin> set e"
      using match_interp_shape by blast
    then have "c # cs = [] @ str ''${'' @ e @ str ''}'' @ rest \<and> no_open [] \<and> e \<noteq> []
        \<and> ch (CHR ''}'') \<notin> set e" by simp
    then show ?thesis by blast
  next
    case None
    with Cons.prems have "occurs match_interp cs" by simp
    from Cons.IH [OF this] obtain a e b where s: "cs = a @ str ''${'' @ e @ str ''}'' @ b"
      and a: "no_open a" and e: "e \<noteq> []" "ch (CHR ''}'') \<notin> set e"
      by blast
    have "lit (str ''${'') (c # a) = None \<or> lit (str ''${}'') (c # a) \<noteq> None"
    proof (rule ccontr)
      assume n: "\<not> (lit (str ''${'') (c # a) = None \<or> lit (str ''${}'') (c # a) \<noteq> None)"
      then obtain a' where c: "c = 36" and a': "a = 123 # a'"
        by (cases a) (auto split: if_splits)
      from n c a' have h: "a' = [] \<or> hd a' \<noteq> 125" by (cases a') (auto split: if_splits)
      let ?t = "a' @ 36 # 123 # e @ 125 # b"
      have "125 \<in> set ?t" "?t \<noteq> []" by simp_all
      moreover have "hd ?t \<noteq> 125" using h by (cases a') auto
      ultimately obtain x r where "many1 (\<lambda>c. c \<noteq> 125) ?t = Some (x, 125 # r)"
        using run_to_brace by blast
      moreover have "c # cs = 36 # 123 # ?t" using s c a' by simp
      ultimately have "match_interp (c # cs) \<noteq> None"
        by (simp add: match_interp_def)
      with None show False by simp
    qed
    with a have "no_open (c # a)" by simp
    moreover from s have "c # cs = (c # a) @ str ''${'' @ e @ str ''}'' @ b" by simp
    ultimately show ?thesis using e by blast
  qed
qed

text \<open>A call with a template literal alone.\<close>

lemma heads_distinct:
  "str ''console.warn('' \<noteq> str ''console.error(''"
  "str ''console.log('' \<noteq> str ''console.error(''"
  "str ''console.log('' \<noteq> str ''console.warn(''"
  by simp_all

lemma before_owner:
  assumes "\<forall>m \<in> set (take i ps). m x = None" and "j < i" and "i \<le> length ps"
  shows "(ps ! j) x = None"
proof -
  from assms(2,3) have "take i ps ! j = ps ! j" "j < length (take i ps)" by simp_all
  then have "ps ! j \<in> set (take i ps)" by (metis nth_mem)
  with assms(1) show ?thesis by blast
qed

lemma template_facts:
  assumes hl: "(head, level, i) \<in> {(str ''console.error('', str ''log.error'', 1::nat),
                                    (str ''console.warn('', str ''log.warn'', 3),
                                    (str ''console.log('', str ''log.info'', 6)}"
    and ws: "\<forall>c \<in> set (w1 @ w2). is_space c"
    and msg: "msg \<noteq> []" "backtick \<notin> set msg"
    and nq: "head = str ''console.error('' \<longrightarrow> (\<forall>c \<in> set msg. non_quote c)"
    and fm: "\<not> contains (str ''console.'') msg"
      "\<not> contains (str ''console.'')
          (if contains (str ''${'') msg then strip (strip_interp msg) else msg)"
    and b: "body = w1 @ backtick # msg @ backtick # w2 @ [41]"
  shows "head = str ''console.error('' \<or> head = str ''console.warn('' \<or> head = str ''console.log(''"
    and "i < length patterns_A"
    and "(patterns_A ! i) (head @ body @ rest) = Some (replace_template level msg, rest)"
    and "j < i \<Longrightarrow> (patterns_A ! j) (head @ body @ rest) = None"
    and "\<not> contains (str ''console.'') rest \<Longrightarrow> \<not> contains (str ''console.'') (body @ rest)"
    and "\<not> contains (str ''console.'') x \<Longrightarrow> \<not> contains (str ''console.'') y
           \<Longrightarrow> \<not> contains (str ''console.'') (x @ replace_template level msg @ y)"
proof -
  show h: "head = str ''console.error('' \<or> head = str ''console.warn('' \<or> head = str ''console.log(''"
    using hl by auto
  show "i < length patterns_A" using hl by (auto simp: patterns_A_def)
  have "match_template head (head @ w1 @ [backtick] @ msg @ [backtick] @ w2 @ str '')'' @ rest)
      = Some (msg, rest)"
    using ws msg by (rule match_template_call)
  then have own: "pat_template head level (head @ body @ rest) = Some (replace_template level msg, rest)"
    using b by (simp add: pat_template_def)
  from hl have "patterns_A ! i = pat_template head level"
    by (auto simp: patterns_A_def simp del: str_Cons str_Nil)
  with own show "(patterns_A ! i) (head @ body @ rest) = Some (replace_template level msg, rest)"
    by simp
  show "(patterns_A ! j) (head @ body @ rest) = None" if j: "j < i"
  proof (rule before_owner [OF _ j])
    show "i \<le> length patterns_A" using hl by (auto simp: patterns_A_def)
    from hl consider
        (e) "head = str ''console.error(''" "i = 1"
      | (w) "head = str ''console.warn(''" "i = 3"
      | (l) "head = str ''console.log(''" "i = 6" by auto
    then show "\<forall>m \<in> set (take i patterns_A). m (head @ body @ rest) = None"
    proof cases
      case e
      with nq have q: "\<forall>c \<in> set msg. non_quote c" by simp
      have "match_str_var head (head @ w1 @ backtick # msg @ backtick # w2 @ 41 # rest) = None"
        using ws msg(1) q by (intro match_str_var_single) (auto simp: is_quote_def)
      then have "pat_str_var head (head @ body @ rest) = None"
        using b by (simp add: pat_str_var_def)
      with e show ?thesis by (simp add: patterns_A_def del: str_Cons str_Nil)
    next
      case w
      have "pat_str_var (str ''console.error('') (str ''console.warn('' @ body @ rest) = None"
        "pat_template (str ''console.error('') (str ''log.error'') (str ''console.warn('' @ body @ rest) = None"
        "pat_simple (str ''console.error('') (str ''log.error'') (str ''console.warn('' @ body @ rest) = None"
        by (rule pat_other_head, rule lit_other_head)+
      with w show ?thesis by (simp add: patterns_A_def del: str_Cons str_Nil)
    next
      case l
      have "pat_str_var (str ''console.error('') (str ''console.log('' @ body @ rest) = None"
        "pat_template (str ''console.error('') (str ''log.error'') (str ''console.log('' @ body @ rest) = None"
        "pat_simple (str ''console.error('') (str ''log.error'') (str ''console.log('' @ body @ rest) = None"
        "pat_template (str ''console.warn('') (str ''log.warn'') (str ''console.log('' @ body @ rest) = None"
        "pat_str_var (str ''console.warn('') (str ''console.log('' @ body @ rest) = None"
        "pat_simple (str ''console.warn('') (str ''log.warn'') (str ''console.log('' @ body @ rest) = None"
        by (rule pat_other_head, rule lit_other_head)+
      with l show ?thesis by (simp add: patterns_A_def del: str_Cons str_Nil)
    qed
  qed
  show "\<not> contains (str ''console.'') (body @ rest)" if "\<not> contains (str ''console.'') rest"
  proof -
    have "backtick \<notin> set (str ''console.'')" by (simp add: backtick_def)
    from free_body_simple [OF ws this this fm(1) that] b show ?thesis by simp
  qed
  show "\<not> contains (str ''console.'') (x @ replace_template level msg @ y)"
    if "\<not> contains (str ''console.'') x" "\<not> contains (str ''console.'') y"
  proof -
    let ?M = "if contains (str ''${'') msg then strip (strip_interp msg) else msg"
    have l: "level = str ''log.error'' \<or> level = str ''log.warn'' \<or> level = str ''log.info''"
      using hl by auto
    have "replace_template level msg = level @ str ''({ msg: '' @ [dquote] @ ?M @ [dquote] @ str '' })''"
      by (simp add: replace_template_def)
    with free_level_msg [OF l fm(2) that] show ?thesis by simp
  qed
qed

lemma template_call:
  assumes hl: "(head, level, i) \<in> {(str ''console.error('', str ''log.error'', 1::nat),
                                    (str ''console.warn('', str ''log.warn'', 3),
                                    (str ''console.log('', str ''log.info'', 6)}"
    and ws: "\<forall>c \<in> set (w1 @ w2). is_space c"
    and msg: "msg \<noteq> []" "backtick \<notin> set msg"
    and nq: "head = str ''console.error('' \<longrightarrow> (\<forall>c \<in> set msg. non_quote c)"
    and fm: "\<not> contains (str ''console.'') msg"
      "\<not> contains (str ''console.'')
          (if contains (str ''${'') msg then strip (strip_interp msg) else msg)"
    and b: "body = w1 @ backtick # msg @ backtick # w2 @ [41]"
    and fp: "\<not> contains (str ''console.'') pre" and fq: "\<not> contains (str ''console.'') post"
  shows "passes_A (pre @ (head @ body) @ post) = pre @ replace_template level msg @ post"
    and "newline \<notin> set body \<Longrightarrow>
         \<exists>pre' post'. add_logger_import (pre @ (head @ body) @ post) = pre' @ (head @ body) @ post'
           \<and> \<not> contains (str ''console.'') pre' \<and> \<not> contains (str ''console.'') post'
           \<and> rewrite_A (pre @ (head @ body) @ post) = (pre' @ replace_template level msg @ post', 1)"
    and "foldl (\<lambda>t m. re_sub m t) (pre @ (head @ body) @ post)
           (if head = str ''console.error('' then take 3 patterns_A
            else if head = str ''console.warn('' then take 3 (drop 3 patterns_A)
            else drop 6 patterns_A)
         = pre @ replace_template level msg @ post"
proof -
  note f = template_facts [OF hl ws msg nq fm b]
  show "passes_A (pre @ (head @ body) @ post) = pre @ replace_template level msg @ post"
    using f(1,2,3) f(4) f(5) [OF fq] f(6) [OF fp fq] fp by (rule call_passes_A)
  show "\<exists>pre' post'. add_logger_import (pre @ (head @ body) @ post) = pre' @ (head @ body) @ post'
           \<and> \<not> contains (str ''console.'') pre' \<and> \<not> contains (str ''console.'') post'
           \<and> rewrite_A (pre @ (head @ body) @ post) = (pre' @ replace_template level msg @ post', 1)"
    if "newline \<notin> set body"
  proof -
    from that f(1) have nl: "newline \<notin> set (head @ body)" by (auto simp: newline_def)
    show ?thesis
      using f(1) nl f(2,3) f(4) f(5) f(6) fp fq by (rule call_rewrite_A)
  qed
  let ?ps = "if head = str ''console.error('' then take 3 patterns_A
            else if head = str ''console.warn('' then take 3 (drop 3 patterns_A)
            else drop 6 patterns_A"
  let ?k = "if head = str ''console.error('' then 1 else 0 :: nat"
  have own: "pat_template head level (head @ body @ post) = Some (replace_template level msg, post)"
  proof -
    from hl have "patterns_A ! i = pat_template head level"
      by (auto simp: patterns_A_def simp del: str_Cons str_Nil)
    with f(3) [of post] show ?thesis by simp
  qed
  show "foldl (\<lambda>t m. re_sub m t) (pre @ (head @ body) @ post) ?ps
      = pre @ replace_template level msg @ post"
  proof (rule call_passes [OF f(1), where i = ?k])
    show "set ?ps \<subseteq> set patterns_A" using patterns_A_subsets by auto
    show "?k < length ?ps" by (simp add: patterns_A_def)
    from hl consider
        (e) "head = str ''console.error(''" "level = str ''log.error''" "i = 1"
      | (w) "head = str ''console.warn(''" "level = str ''log.warn''"
      | (l) "head = str ''console.log(''" "level = str ''log.info''" by auto
    then show "(?ps ! ?k) (head @ body @ post) = Some (replace_template level msg, post)"
    proof cases
      case e
      with own show ?thesis by (simp add: patterns_A_groups heads_distinct del: str_Cons str_Nil)
    next
      case w
      with own show ?thesis by (simp add: patterns_A_groups heads_distinct del: str_Cons str_Nil)
    next
      case l
      with own show ?thesis by (simp add: patterns_A_groups heads_distinct del: str_Cons str_Nil)
    qed
    show "\<forall>j < ?k. (?ps ! j) (head @ body @ post) = None"
    proof (cases "head = str ''console.error(''")
      case True
      with hl have "i = 1" by auto
      with f(4) [of 0 post] have "(patterns_A ! 0) (head @ body @ post) = None" by simp
      with True show ?thesis by (simp add: patterns_A_def del: str_Cons str_Nil)
    next
      case False
      then show ?thesis by simp
    qed
    show "\<not> contains (str ''console.'') (body @ post)" using fq by (rule f(5))
    show "\<not> contains (str ''console.'') (pre @ replace_template level msg @ post)"
      using fp fq by (rule f(6))
    show "\<not> contains (str ''console.'') pre" by (rule fp)
  qed
qed

section \<open>Interpolation markers in the emitted message\<close>




end
